theory Spec2Isabelle
  imports Complex_Main "HOL-Library.AList" "HOL-Library.Char_ord" "HOL-Library.List_Lexorder"
    "HOL-Library.Product_Lexorder"
begin

section \<open>Shared Python notions\<close>

text \<open>
  The exceptions that the functions of \<^verbatim>\<open>mir_eval/util.py\<close> can raise, as values.
  \<open>IndexError\<close>, \<open>KeyError\<close>, \<open>TypeError\<close>, \<open>ZeroDivisionError\<close>, \<open>OverflowError\<close>
  come from the interpreter and from numpy. \<open>ValueError\<close> is the one \<^verbatim>\<open>raise\<close> statement of the module,
  in \<^verbatim>\<open>merge_labeled_intervals\<close> ("Time intervals do not align; did you mean to call
  'adjust_intervals()' first?"); the specification names this error
  \<^verbatim>\<open>MisalignedIntervalsError\<close>. \<open>InvalidInputError\<close> is a name of the specification's
  taxonomy only: no statement of the module raises it.
\<close>

datatype py_error =
    IndexError
  | KeyError
  | TypeError
  | ZeroDivisionError
  | OverflowError
  | ValueError
  | InvalidInputError

text \<open>\<^verbatim>\<open>np.argwhere(cond)\<close> on a one-dimensional array: the positions where \<open>cond\<close> holds,
  ascending.\<close>

definition argwhere :: "('a \<Rightarrow> bool) \<Rightarrow> 'a list \<Rightarrow> nat list" where
  "argwhere P xs = [i \<leftarrow> [0..<length xs]. P (xs ! i)]"

section \<open>\<^verbatim>\<open>index_labels\<close>\<close>

text \<open>\<^verbatim>\<open>str.lower\<close> on a byte string: the ASCII capitals are moved to the small letters,
  every other byte is kept.\<close>

definition lower_char :: "char \<Rightarrow> char" where
  "lower_char c =
     (let n = (of_char c :: nat) in if 65 \<le> n \<and> n \<le> 90 then char_of (n + 32) else c)"

definition lower :: "string \<Rightarrow> string" where
  "lower s = map lower_char s"

text \<open>\<^verbatim>\<open>[label_to_index[s] for s in labels]\<close>: a missing key raises \<open>KeyError\<close>.\<close>

fun remap :: "(string \<times> nat) list \<Rightarrow> string list \<Rightarrow> py_error + nat list" where
  "remap label_to_index [] = Inr []"
| "remap label_to_index (s # ss) =
     (case map_of label_to_index s of
        None \<Rightarrow> Inl KeyError
      | Some i \<Rightarrow> (case remap label_to_index ss of
                     Inl e \<Rightarrow> Inl e
                   | Inr js \<Rightarrow> Inr (i # js)))"

text \<open>
  \<^verbatim>\<open>sorted(set(labels))\<close> is \<open>sort (remdups labels)\<close>: Python compares byte strings
  lexicographically byte by byte, which is the order of \<open>char list\<close> here. The two
  dictionaries are association lists in insertion order.
\<close>

definition index_labels ::
  "string list \<Rightarrow> bool \<Rightarrow> py_error + (nat list \<times> (nat \<times> string) list)" where
  "index_labels labels case_sensitive =
     (let labels1 = (if \<not> case_sensitive then map lower labels else labels);
          uniq = sort (remdups labels1);
          label_to_index = zip uniq [0..<length uniq];
          index_to_label = zip [0..<length uniq] uniq
      in case remap label_to_index labels1 of
           Inl e \<Rightarrow> Inl e
         | Inr indices \<Rightarrow> Inr (indices, index_to_label))"

section \<open>\<^verbatim>\<open>f_measure\<close>\<close>

text \<open>
  The function computes on Python numbers (floats, in the documented use). Their
  arithmetic is a parameter of the model, and nothing is assumed of it: \<open>num_is_zero\<close> is
  the comparison \<^verbatim>\<open>x == 0\<close>, \<open>num_pow2\<close> is \<^verbatim>\<open>x ** 2\<close>, which raises \<open>OverflowError\<close> (here
  \<open>None\<close>) when the square is out of range, \<open>num_add\<close> and \<open>num_mul\<close> are \<^verbatim>\<open>+\<close> and \<^verbatim>\<open>*\<close>,
  \<open>num_div\<close> is \<^verbatim>\<open>/\<close> on a divisor that is not zero, \<open>num_zero\<close> is the literal \<^verbatim>\<open>0.0\<close>
  and \<open>num_one\<close> the literal \<^verbatim>\<open>1\<close>. So a square may round to zero, or overflow, as it
  does on floats.
\<close>

record 'a arith =
  num_is_zero :: "'a \<Rightarrow> bool"
  num_pow2 :: "'a \<Rightarrow> 'a option"
  num_add :: "'a \<Rightarrow> 'a \<Rightarrow> 'a"
  num_mul :: "'a \<Rightarrow> 'a \<Rightarrow> 'a"
  num_div :: "'a \<Rightarrow> 'a \<Rightarrow> 'a"
  num_zero :: 'a
  num_one :: 'a

text \<open>
  \<^verbatim>\<open>(1 + beta**2) * precision * recall / ((beta**2) * precision + recall)\<close>: the power is
  evaluated first and may raise; the division raises \<open>ZeroDivisionError\<close> on a divisor
  that compares equal to zero.
\<close>

definition f_measure :: "'a arith \<Rightarrow> 'a \<Rightarrow> 'a \<Rightarrow> 'a \<Rightarrow> py_error + 'a" where
  "f_measure A precision recall beta =
     (if num_is_zero A precision \<and> num_is_zero A recall then Inr (num_zero A)
      else
        (case num_pow2 A beta of
           None \<Rightarrow> Inl OverflowError
         | Some b2 \<Rightarrow>
             (let numerator = num_mul A (num_mul A (num_add A (num_one A) b2) precision) recall;
                  denominator = num_add A (num_mul A b2 precision) recall
              in if num_is_zero A denominator then Inl ZeroDivisionError
                 else Inr (num_div A numerator denominator))))"

section \<open>\<^verbatim>\<open>boundaries_to_intervals\<close>\<close>

text \<open>
  \<^verbatim>\<open>zip(boundaries[:-1], boundaries[1:])\<close> is a list of pairs (Python 2), which
  \<^verbatim>\<open>np.asarray\<close> turns into an array with one row per pair. \<^verbatim>\<open>labels[:-1]\<close> never
  raises.
\<close>

definition boundaries_to_intervals ::
  "'a list \<Rightarrow> 'l list option \<Rightarrow> ('a \<times> 'a) list \<times> 'l list option" where
  "boundaries_to_intervals boundaries labels =
     (let intervals = zip (butlast boundaries) (tl boundaries);
          interval_labels = (case labels of None \<Rightarrow> None | Some ls \<Rightarrow> Some (butlast ls))
      in (intervals, interval_labels))"

section \<open>Label lists as mutable objects\<close>

text \<open>
  A Python list is an object: \<^verbatim>\<open>labels.insert\<close> and \<^verbatim>\<open>labels.append\<close> change it in
  place, for every holder of the reference, while a slice \<^verbatim>\<open>labels[i:]\<close> builds a new
  list. The store maps references to list contents; \<open>fresh\<close> is the next unused
  reference. (The numpy arrays are never written to, so they are plain values.)
\<close>

record store =
  cells :: "nat \<Rightarrow> string list"
  fresh :: nat

definition alloc :: "string list \<Rightarrow> store \<Rightarrow> nat \<times> store" where
  "alloc xs s = (fresh s, s\<lparr>cells := (cells s)(fresh s := xs), fresh := Suc (fresh s)\<rparr>)"

text \<open>\<^verbatim>\<open>labels[k:]\<close> and \<^verbatim>\<open>labels[:k]\<close> (with \<open>k \<ge> 0\<close>): a new list object.\<close>

definition slice_from :: "nat \<Rightarrow> nat \<Rightarrow> store \<Rightarrow> nat \<times> store" where
  "slice_from k r s = alloc (drop k (cells s r)) s"

definition slice_to :: "nat \<Rightarrow> nat \<Rightarrow> store \<Rightarrow> nat \<times> store" where
  "slice_to k r s = alloc (take k (cells s r)) s"

text \<open>\<^verbatim>\<open>labels.insert(0, x)\<close> and \<^verbatim>\<open>labels.append(x)\<close>: the object itself changes.\<close>

definition list_insert0 :: "nat \<Rightarrow> string \<Rightarrow> store \<Rightarrow> store" where
  "list_insert0 r x s = s\<lparr>cells := (cells s)(r := x # cells s r)\<rparr>"

definition list_append :: "nat \<Rightarrow> string \<Rightarrow> store \<Rightarrow> store" where
  "list_append r x s = s\<lparr>cells := (cells s)(r := cells s r @ [x])\<rparr>"

section \<open>\<^verbatim>\<open>adjust_intervals\<close>\<close>

text \<open>
  An interval array of shape \<open>(n, 2)\<close> is a list of pairs; times are values of a linear
  order. \<open>labels\<close> is \<open>None\<close> or a reference to a list object. The two halves of the
  function (\<^verbatim>\<open>if t_min is not None:\<close> and \<^verbatim>\<open>if t_max is not None:\<close>) are
  \<open>adjust_t_min\<close> and \<open>adjust_t_max\<close>. \<^verbatim>\<open>intervals[0, 0]\<close> and \<^verbatim>\<open>intervals[-1, -1]\<close>
  raise \<open>IndexError\<close> on an array without rows.
\<close>

definition adjust_t_min ::
  "'a::linorder \<Rightarrow> string \<Rightarrow> ('a \<times> 'a) list \<Rightarrow> nat option \<Rightarrow> store
     \<Rightarrow> (py_error + (('a \<times> 'a) list \<times> nat option)) \<times> store" where
  "adjust_t_min t_min label_prefix intervals labels s =
     (let first_idx = argwhere (\<lambda>iv. snd iv \<ge> t_min) intervals;
          (labels1, s1) =
             (if length first_idx > 0
              then (case labels of
                      None \<Rightarrow> (None, s)
                    | Some r \<Rightarrow> (let (r', s') = slice_from (hd first_idx) r s in (Some r', s')))
              else (labels, s));
          intervals1 = (if length first_idx > 0 then drop (hd first_idx) intervals else intervals);
          intervals2 = map (\<lambda>(a, b). (max t_min a, max t_min b)) intervals1
      in case intervals2 of
           [] \<Rightarrow> (Inl IndexError, s1)
         | iv # _ \<Rightarrow>
             if fst iv > t_min
             then (Inr ((t_min, fst iv) # intervals2, labels1),
                   (case labels1 of
                      None \<Rightarrow> s1
                    | Some r \<Rightarrow> list_insert0 r (label_prefix @ ''T_MIN'') s1))
             else (Inr (intervals2, labels1), s1))"

definition adjust_t_max ::
  "'a::linorder \<Rightarrow> string \<Rightarrow> ('a \<times> 'a) list \<Rightarrow> nat option \<Rightarrow> store
     \<Rightarrow> (py_error + (('a \<times> 'a) list \<times> nat option)) \<times> store" where
  "adjust_t_max t_max label_prefix intervals labels s =
     (let last_idx = argwhere (\<lambda>iv. fst iv > t_max) intervals;
          (labels1, s1) =
             (if length last_idx > 0
              then (case labels of
                      None \<Rightarrow> (None, s)
                    | Some r \<Rightarrow> (let (r', s') = slice_to (hd last_idx) r s in (Some r', s')))
              else (labels, s));
          intervals1 = (if length last_idx > 0 then take (hd last_idx) intervals else intervals);
          intervals2 = map (\<lambda>(a, b). (min t_max a, min t_max b)) intervals1
      in if intervals2 = [] then (Inl IndexError, s1)
         else if snd (last intervals2) < t_max
         then (Inr (intervals2 @ [(snd (last intervals2), t_max)], labels1),
               (case labels1 of
                  None \<Rightarrow> s1
                | Some r \<Rightarrow> list_append r (label_prefix @ ''T_MAX'') s1))
         else (Inr (intervals2, labels1), s1))"

definition adjust_intervals ::
  "('a::linorder \<times> 'a) list \<Rightarrow> nat option \<Rightarrow> 'a option \<Rightarrow> 'a option \<Rightarrow> string \<Rightarrow> store
     \<Rightarrow> (py_error + (('a \<times> 'a) list \<times> nat option)) \<times> store" where
  "adjust_intervals intervals labels t_min t_max label_prefix s =
     (case (case t_min of
              None \<Rightarrow> (Inr (intervals, labels), s)
            | Some a \<Rightarrow> adjust_t_min a label_prefix intervals labels s) of
        (Inl e, s1) \<Rightarrow> (Inl e, s1)
      | (Inr (intervals1, labels1), s1) \<Rightarrow>
          (case t_max of
             None \<Rightarrow> (Inr (intervals1, labels1), s1)
           | Some b \<Rightarrow> adjust_t_max b label_prefix intervals1 labels1 s1))"

section \<open>\<^verbatim>\<open>adjust_events\<close>\<close>

definition adjust_events_t_min ::
  "'a::linorder \<Rightarrow> string \<Rightarrow> 'a list \<Rightarrow> nat option \<Rightarrow> store
     \<Rightarrow> (py_error + ('a list \<times> nat option)) \<times> store" where
  "adjust_events_t_min t_min label_prefix events labels s =
     (let first_idx = argwhere (\<lambda>e. e \<ge> t_min) events;
          (labels1, s1) =
             (if length first_idx > 0
              then (case labels of
                      None \<Rightarrow> (None, s)
                    | Some r \<Rightarrow> (let (r', s') = slice_from (hd first_idx) r s in (Some r', s')))
              else (labels, s));
          events1 = (if length first_idx > 0 then drop (hd first_idx) events else events)
      in case events1 of
           [] \<Rightarrow> (Inl IndexError, s1)
         | e # _ \<Rightarrow>
             if e > t_min
             then (Inr (t_min # events1, labels1),
                   (case labels1 of
                      None \<Rightarrow> s1
                    | Some r \<Rightarrow> list_insert0 r (label_prefix @ ''T_MIN'') s1))
             else (Inr (events1, labels1), s1))"

definition adjust_events_t_max ::
  "'a::linorder \<Rightarrow> string \<Rightarrow> 'a list \<Rightarrow> nat option \<Rightarrow> store
     \<Rightarrow> (py_error + ('a list \<times> nat option)) \<times> store" where
  "adjust_events_t_max t_max label_prefix events labels s =
     (let last_idx = argwhere (\<lambda>e. e > t_max) events;
          (labels1, s1) =
             (if length last_idx > 0
              then (case labels of
                      None \<Rightarrow> (None, s)
                    | Some r \<Rightarrow> (let (r', s') = slice_to (hd last_idx) r s in (Some r', s')))
              else (labels, s));
          events1 = (if length last_idx > 0 then take (hd last_idx) events else events)
      in if events1 = [] then (Inl IndexError, s1)
         else if last events1 < t_max
         then (Inr (events1 @ [t_max], labels1),
               (case labels1 of
                  None \<Rightarrow> s1
                | Some r \<Rightarrow> list_append r (label_prefix @ ''T_MAX'') s1))
         else (Inr (events1, labels1), s1))"

definition adjust_events ::
  "'a::linorder list \<Rightarrow> nat option \<Rightarrow> 'a option \<Rightarrow> 'a option \<Rightarrow> string \<Rightarrow> store
     \<Rightarrow> (py_error + ('a list \<times> nat option)) \<times> store" where
  "adjust_events events labels t_min t_max label_prefix s =
     (case (case t_min of
              None \<Rightarrow> (Inr (events, labels), s)
            | Some a \<Rightarrow> adjust_events_t_min a label_prefix events labels s) of
        (Inl e, s1) \<Rightarrow> (Inl e, s1)
      | (Inr (events1, labels1), s1) \<Rightarrow>
          (case t_max of
             None \<Rightarrow> (Inr (events1, labels1), s1)
           | Some b \<Rightarrow> adjust_events_t_max b label_prefix events1 labels1 s1))"

section \<open>\<^verbatim>\<open>merge_labeled_intervals\<close>\<close>

text \<open>
  \<^verbatim>\<open>x_label_range[(t0 >= x_intervals[:, 0])]\<close> selects the positions whose interval
  starts at or before \<open>t0\<close>; a mask whose length differs from the indexed array raises
  \<open>IndexError\<close>, and so does \<^verbatim>\<open>x_idx[-1]\<close> when nothing was selected.
\<close>

definition active_label :: "'a::linorder \<Rightarrow> ('a \<times> 'a) list \<Rightarrow> 'l list \<Rightarrow> py_error + 'l" where
  "active_label t0 intervals labels =
     (if length labels \<noteq> length intervals then Inl IndexError
      else let idx = [i \<leftarrow> [0..<length labels]. t0 \<ge> fst (intervals ! i)]
           in if idx = [] then Inl IndexError else Inr (labels ! last idx))"

fun merge_loop ::
  "('a::linorder \<times> 'a) list \<Rightarrow> 'l list \<Rightarrow> ('a \<times> 'a) list \<Rightarrow> 'l list \<Rightarrow> ('a \<times> 'a) list
     \<Rightarrow> py_error + ('l list \<times> 'l list)" where
  "merge_loop x_intervals x_labels y_intervals y_labels [] = Inr ([], [])"
| "merge_loop x_intervals x_labels y_intervals y_labels ((t0, t1) # rest) =
     (case active_label t0 x_intervals x_labels of
        Inl e \<Rightarrow> Inl e
      | Inr xl \<Rightarrow>
          (case active_label t0 y_intervals y_labels of
             Inl e \<Rightarrow> Inl e
           | Inr yl \<Rightarrow>
               (case merge_loop x_intervals x_labels y_intervals y_labels rest of
                  Inl e \<Rightarrow> Inl e
                | Inr (xs, ys) \<Rightarrow> Inr (xl # xs, yl # ys))))"

text \<open>
  \<^verbatim>\<open>x_intervals[0, 0]\<close> and its three companions raise \<open>IndexError\<close> on an array without
  rows, before anything is compared. \<^verbatim>\<open>len(x_labels)\<close> raises \<open>TypeError\<close> on \<open>None\<close>.
  \<^verbatim>\<open>np.unique\<close> of the concatenation is the sorted list of the distinct endpoint values.
\<close>

definition merge_labeled_intervals ::
  "('a::linorder \<times> 'a) list \<Rightarrow> 'l list option \<Rightarrow> ('a \<times> 'a) list \<Rightarrow> 'l list option
     \<Rightarrow> py_error + (('a \<times> 'a) list \<times> 'l list \<times> 'l list)" where
  "merge_labeled_intervals x_intervals x_labels y_intervals y_labels =
     (if x_intervals = [] \<or> y_intervals = [] then Inl IndexError
      else if fst (hd x_intervals) \<noteq> fst (hd y_intervals)
              \<or> snd (last x_intervals) \<noteq> snd (last y_intervals)
      then Inl ValueError
      else
        (let time_boundaries =
               sort (remdups (concat (map (\<lambda>(a, b). [a, b]) (x_intervals @ y_intervals))));
             output_intervals = zip (butlast time_boundaries) (tl time_boundaries)
         in case x_labels of
              None \<Rightarrow> Inl TypeError
            | Some xl \<Rightarrow>
                (case y_labels of
                   None \<Rightarrow> Inl TypeError
                 | Some yl \<Rightarrow>
                     (case merge_loop x_intervals xl y_intervals yl output_intervals of
                        Inl e \<Rightarrow> Inl e
                      | Inr (xs, ys) \<Rightarrow> Inr (output_intervals, xs, ys)))))"

section \<open>\<^verbatim>\<open>_bipartite_match\<close>\<close>

text \<open>
  Vertices are numbers. A dictionary is an association list with distinct keys, in
  insertion order: \<^verbatim>\<open>d[k] = v\<close> is \<open>AList.update k v d\<close> (a new key goes to the end),
  \<^verbatim>\<open>del d[k]\<close> is \<open>AList.delete k d\<close>, \<^verbatim>\<open>k in d\<close> is \<open>map_of d k \<noteq> None\<close>, and iterating
  over \<open>d\<close> visits \<open>map fst d\<close> in order. \<open>graph\<close> maps each vertex of \<open>U\<close> to the list of
  its neighbours in \<open>V\<close>; \<open>matching\<close> maps vertices of \<open>V\<close> to vertices of \<open>U\<close>.
\<close>

type_synonym graph = "(nat \<times> nat list) list"

type_synonym matching = "(nat \<times> nat) list"

text \<open>A value of \<^verbatim>\<open>pred[u]\<close>: the list object \<^verbatim>\<open>unmatched\<close>, used as a flag for the
  vertices of the first layer, or a vertex of \<open>V\<close>.\<close>

datatype pred_val = Unmatched | Via nat

type_synonym pred = "(nat \<times> pred_val) list"

type_synonym preds = "(nat \<times> nat list) list"

text \<open>The greedy start: for every \<open>u\<close>, the first neighbour that is not matched yet.\<close>

fun greedy_scan :: "nat \<Rightarrow> nat list \<Rightarrow> matching \<Rightarrow> matching" where
  "greedy_scan u [] matching = matching"
| "greedy_scan u (v # vs) matching =
     (if map_of matching v = None then AList.update v u matching
      else greedy_scan u vs matching)"

definition greedy_matching :: "graph \<Rightarrow> matching" where
  "greedy_matching graph = fold (\<lambda>(u, vs) matching. greedy_scan u vs matching) graph []"

text \<open>\<^verbatim>\<open>pred = dict([(u, unmatched) for u in graph])\<close>, then
  \<^verbatim>\<open>for v in matching: del pred[matching[v]]\<close>; deleting a missing key raises
  \<open>KeyError\<close>.\<close>

fun delete_matched :: "matching \<Rightarrow> pred \<Rightarrow> py_error + pred" where
  "delete_matched [] pred = Inr pred"
| "delete_matched ((v, u) # rest) pred =
     (if map_of pred u = None then Inl KeyError
      else delete_matched rest (AList.delete u pred))"

definition initial_pred :: "graph \<Rightarrow> matching \<Rightarrow> py_error + pred" where
  "initial_pred graph matching = delete_matched matching (map (\<lambda>(u, vs). (u, Unmatched)) graph)"

text \<open>\<^verbatim>\<open>for v in graph[u]: if v not in preds: newLayer.setdefault(v, []).append(u)\<close>\<close>

fun add_edges :: "preds \<Rightarrow> nat \<Rightarrow> nat list \<Rightarrow> (nat \<times> nat list) list \<Rightarrow> (nat \<times> nat list) list" where
  "add_edges preds u [] newLayer = newLayer"
| "add_edges preds u (v # vs) newLayer =
     add_edges preds u vs
       (if map_of preds v = None
        then (case map_of newLayer v of
                None \<Rightarrow> AList.update v [u] newLayer
              | Some us \<Rightarrow> AList.update v (us @ [u]) newLayer)
        else newLayer)"

text \<open>\<^verbatim>\<open>for u in layer: for v in graph[u]: ...\<close>; \<^verbatim>\<open>graph[u]\<close> raises \<open>KeyError\<close> on a
  missing key.\<close>

fun build_newLayer ::
  "graph \<Rightarrow> preds \<Rightarrow> nat list \<Rightarrow> (nat \<times> nat list) list \<Rightarrow> py_error + (nat \<times> nat list) list" where
  "build_newLayer graph preds [] newLayer = Inr newLayer"
| "build_newLayer graph preds (u # us) newLayer =
     (case map_of graph u of
        None \<Rightarrow> Inl KeyError
      | Some vs \<Rightarrow> build_newLayer graph preds us (add_edges preds u vs newLayer))"

text \<open>
  \<^verbatim>\<open>for v in newLayer: preds[v] = newLayer[v]\<close>, and then either
  \<^verbatim>\<open>layer.append(matching[v]); pred[matching[v]] = v\<close> or \<^verbatim>\<open>unmatched.append(v)\<close>.
\<close>

fun absorb_newLayer ::
  "matching \<Rightarrow> (nat \<times> nat list) list \<Rightarrow> pred \<Rightarrow> preds \<Rightarrow> nat list \<Rightarrow> nat list
     \<Rightarrow> pred \<times> preds \<times> nat list \<times> nat list" where
  "absorb_newLayer matching [] pred preds layer unmatched = (pred, preds, layer, unmatched)"
| "absorb_newLayer matching ((v, us) # rest) pred preds layer unmatched =
     (case map_of matching v of
        Some u \<Rightarrow>
          absorb_newLayer matching rest
            (AList.update u (Via v) pred) (AList.update v us preds) (layer @ [u]) unmatched
      | None \<Rightarrow>
          absorb_newLayer matching rest
            pred (AList.update v us preds) layer (unmatched @ [v]))"

text \<open>\<^verbatim>\<open>while layer and not unmatched:\<close> the layering loop. \<open>None\<close> stands for a loop
  that does not end.\<close>

partial_function (option) layering ::
  "graph \<Rightarrow> matching \<Rightarrow> pred \<Rightarrow> preds \<Rightarrow> nat list \<Rightarrow> nat list
     \<Rightarrow> (py_error + pred \<times> preds \<times> nat list) option" where
  "layering graph matching pred preds layer unmatched =
     (if layer \<noteq> [] \<and> unmatched = []
      then (case build_newLayer graph preds layer [] of
              Inl e \<Rightarrow> Some (Inl e)
            | Inr newLayer \<Rightarrow>
                (case absorb_newLayer matching newLayer pred preds [] unmatched of
                   (pred', preds', layer', unmatched') \<Rightarrow>
                     layering graph matching pred' preds' layer' unmatched'))
      else Some (Inr (pred, preds, unmatched)))"

declare layering.simps [code]

text \<open>
  The nested function \<^verbatim>\<open>recurse(v)\<close>, which works on \<^verbatim>\<open>pred\<close>, \<^verbatim>\<open>preds\<close> and
  \<^verbatim>\<open>matching\<close> of the enclosing call. The second argument is \<open>None\<close> at the entry of
  \<^verbatim>\<open>recurse(v)\<close> and \<open>Some us\<close> inside its \<^verbatim>\<open>for u in L\<close> loop, with \<open>us\<close> the vertices
  still to visit. The result is the returned flag (\<^verbatim>\<open>1\<close> or \<^verbatim>\<open>0\<close>) with the three
  dictionaries as the call leaves them.
\<close>

partial_function (option) recurse ::
  "nat \<Rightarrow> nat list option \<Rightarrow> pred \<Rightarrow> preds \<Rightarrow> matching
     \<Rightarrow> (bool \<times> pred \<times> preds \<times> matching) option" where
  "recurse v todo pred preds matching =
     (case todo of
        None \<Rightarrow>
          (case map_of preds v of
             None \<Rightarrow> Some (False, pred, preds, matching)
           | Some L \<Rightarrow> recurse v (Some L) pred (AList.delete v preds) matching)
      | Some [] \<Rightarrow> Some (False, pred, preds, matching)
      | Some (u # us) \<Rightarrow>
          (case map_of pred u of
             None \<Rightarrow> recurse v (Some us) pred preds matching
           | Some pu \<Rightarrow>
               (case pu of
                  Unmatched \<Rightarrow>
                    Some (True, AList.delete u pred, preds, AList.update v u matching)
                | Via w \<Rightarrow>
                    Option.bind (recurse w None (AList.delete u pred) preds matching)
                      (\<lambda>(found, pred', preds', matching').
                         if found then Some (True, pred', preds', AList.update v u matching')
                         else recurse v (Some us) pred' preds' matching'))))"

declare recurse.simps [code]

text \<open>\<^verbatim>\<open>for v in unmatched: recurse(v)\<close>\<close>

fun recurse_all ::
  "nat list \<Rightarrow> pred \<Rightarrow> preds \<Rightarrow> matching \<Rightarrow> (pred \<times> preds \<times> matching) option" where
  "recurse_all [] pred preds matching = Some (pred, preds, matching)"
| "recurse_all (v # vs) pred preds matching =
     Option.bind (recurse v None pred preds matching)
       (\<lambda>(found, pred', preds', matching'). recurse_all vs pred' preds' matching')"

text \<open>
  The \<^verbatim>\<open>while True:\<close> loop. When the layering ends without an unmatched vertex the
  function returns \<^verbatim>\<open>matching\<close> (the dictionary \<^verbatim>\<open>unlayered\<close> computed just before is
  never used).
\<close>

partial_function (option) augment_loop :: "graph \<Rightarrow> matching \<Rightarrow> (py_error + matching) option" where
  "augment_loop graph matching =
     (case initial_pred graph matching of
        Inl e \<Rightarrow> Some (Inl e)
      | Inr pred \<Rightarrow>
          Option.bind (layering graph matching pred [] (map fst pred) [])
            (\<lambda>r. case r of
                    Inl e \<Rightarrow> Some (Inl e)
                  | Inr (pred', preds', unmatched) \<Rightarrow>
                      if unmatched = [] then Some (Inr matching)
                      else Option.bind (recurse_all unmatched pred' preds' matching)
                             (\<lambda>(pred'', preds'', matching'). augment_loop graph matching')))"

declare augment_loop.simps [code]

definition bipartite_match :: "graph \<Rightarrow> (py_error + matching) option" where
  "bipartite_match graph = augment_loop graph (greedy_matching graph)"

section \<open>\<^verbatim>\<open>match_events\<close>\<close>

text \<open>
  \<^verbatim>\<open>np.where(np.abs(np.subtract.outer(ref, est)) <= window)\<close>: the index pairs \<open>(i, j)\<close>
  of the entries within the window, row by row. Nothing is assumed of the subtraction,
  the absolute value and the comparison of event times.
\<close>

definition hits :: "'a::{minus, abs, ord} list \<Rightarrow> 'a list \<Rightarrow> 'a \<Rightarrow> (nat \<times> nat) list" where
  "hits ref est window =
     concat (map (\<lambda>i. map (\<lambda>j. (i, j))
                        (filter (\<lambda>j. \<bar>ref ! i - est ! j\<bar> \<le> window) [0..<length est]))
                 [0..<length ref])"

text \<open>\<^verbatim>\<open>if ref_i not in G: G[ref_i] = []\<close>, then \<^verbatim>\<open>G[ref_i].append(est_i)\<close>\<close>

definition add_hit :: "nat \<times> nat \<Rightarrow> graph \<Rightarrow> graph" where
  "add_hit h G =
     (case h of (ref_i, est_i) \<Rightarrow>
        (case map_of G ref_i of
           None \<Rightarrow> AList.update ref_i [est_i] G
         | Some js \<Rightarrow> AList.update ref_i (js @ [est_i]) G))"

text \<open>\<^verbatim>\<open>sorted(_bipartite_match(G).items())\<close>: the items of the dictionary from \<open>V\<close> to
  \<open>U\<close>, that is pairs \<open>(est_i, ref_i)\<close>, in the lexicographic order of tuples.\<close>

definition match_events ::
  "'a::{minus, abs, ord} list \<Rightarrow> 'a list \<Rightarrow> 'a \<Rightarrow> (py_error + (nat \<times> nat) list) option" where
  "match_events ref est window =
     (let G = fold add_hit (hits ref est window) []
      in case bipartite_match G of
           None \<Rightarrow> None
         | Some (Inl e) \<Rightarrow> Some (Inl e)
         | Some (Inr matching) \<Rightarrow> Some (Inr (sort matching)))"

section \<open>Properties used in the statements\<close>

text \<open>Each interval ends where the next one starts.\<close>

fun contiguous :: "('a \<times> 'a) list \<Rightarrow> bool" where
  "contiguous (a # b # rest) = (snd a = fst b \<and> contiguous (b # rest))"
| "contiguous _ = True"

text \<open>A store holding the single list \<^verbatim>\<open>['a']\<close> at reference \<open>0\<close>: the caller's labels.\<close>

definition caller_store :: store where
  "caller_store = \<lparr>cells = (\<lambda>_. [])(0 := [''a'']), fresh = 1\<rparr>"

text \<open>The rows that the crop statements of \<open>adjust_intervals\<close> leave: \<open>cropped_t_min\<close>
  is \<^verbatim>\<open>intervals[int(first_idx[0]):]\<close> under its guard \<^verbatim>\<open>len(first_idx) > 0\<close>, and
  \<open>cropped_t_max\<close> is \<^verbatim>\<open>intervals[:int(last_idx[0])]\<close> under \<^verbatim>\<open>len(last_idx) > 0\<close>.\<close>

definition cropped_t_min :: "'a::linorder \<Rightarrow> ('a \<times> 'a) list \<Rightarrow> ('a \<times> 'a) list" where
  "cropped_t_min t_min intervals =
     (let first_idx = argwhere (\<lambda>iv. snd iv \<ge> t_min) intervals
      in if length first_idx > 0 then drop (hd first_idx) intervals else intervals)"

definition cropped_t_max :: "'a::linorder \<Rightarrow> ('a \<times> 'a) list \<Rightarrow> ('a \<times> 'a) list" where
  "cropped_t_max t_max intervals =
     (let last_idx = argwhere (\<lambda>iv. fst iv > t_max) intervals
      in if length last_idx > 0 then take (hd last_idx) intervals else intervals)"

text \<open>The interval sequences that survive the two filtering steps as the specification
  words them: "drop all intervals ending strictly before \<open>t_min\<close>" and "drop all
  intervals starting strictly after \<open>t_max\<close>".\<close>

definition surviving_t_min :: "'a::linorder \<Rightarrow> ('a \<times> 'a) list \<Rightarrow> ('a \<times> 'a) list" where
  "surviving_t_min t_min intervals = filter (\<lambda>iv. \<not> snd iv < t_min) intervals"

definition surviving_t_max :: "'a::linorder \<Rightarrow> ('a \<times> 'a) list \<Rightarrow> ('a \<times> 'a) list" where
  "surviving_t_max t_max intervals = filter (\<lambda>iv. \<not> fst iv > t_max) intervals"

text \<open>
  An arithmetic for the examples: the real numbers, computing exactly, with a square of
  \<open>2\<^sup>1\<^sup>0\<^sup>2\<^sup>4\<close> or more reported as overflow. Python's floats agree with it on the numbers
  used in the examples (\<open>0\<close>, \<open>1/2\<close>, \<open>1\<close> and \<open>2\<^sup>6\<^sup>0\<^sup>0\<close>), on which every operation is exact
  or overflows.
\<close>

definition exact_arith :: "real arith" where
  "exact_arith =
     \<lparr>num_is_zero = (\<lambda>x. x = 0),
      num_pow2 = (\<lambda>x. if x\<^sup>2 < 2 ^ 1024 then Some (x\<^sup>2) else None),
      num_add = (+), num_mul = (*), num_div = (/), num_zero = 0, num_one = 1\<rparr>"

text \<open>The edges of a graph given as a dictionary of adjacency lists, as pairs \<open>(u, v)\<close>.\<close>

definition edges_of :: "graph \<Rightarrow> (nat \<times> nat) set" where
  "edges_of graph = {(u, v). \<exists>vs. map_of graph u = Some vs \<and> v \<in> set vs}"

text \<open>A matching of a set of edges: a subset in which no left and no right vertex
  occurs twice.\<close>

definition is_matching :: "(nat \<times> nat) set \<Rightarrow> (nat \<times> nat) set \<Rightarrow> bool" where
  "is_matching E M \<longleftrightarrow> M \<subseteq> E \<and> inj_on fst M \<and> inj_on snd M"

text \<open>The compatibility graph of \<open>match_events\<close>: reference \<open>i\<close> and estimate \<open>j\<close> are
  joined when they are at most \<open>window\<close> apart.\<close>

definition compat :: "'a::{minus, abs, ord} list \<Rightarrow> 'a list \<Rightarrow> 'a \<Rightarrow> (nat \<times> nat) set" where
  "compat ref est window =
     {(i, j). i < length ref \<and> j < length est \<and> \<bar>ref ! i - est ! j\<bar> \<le> window}"

text \<open>
  What holds of the three dictionaries throughout an augmentation phase: \<open>matching\<close> is a
  matching along edges; a vertex flagged \<open>Unmatched\<close> in \<open>pred\<close> is free; a vertex whose
  \<open>pred\<close> is \<open>v\<close> is the partner of \<open>v\<close>; and \<open>preds\<close> lists neighbours only.
\<close>

definition search_inv :: "(nat \<times> nat) set \<Rightarrow> pred \<Rightarrow> preds \<Rightarrow> matching \<Rightarrow> bool" where
  "search_inv E pred preds M \<longleftrightarrow>
     distinct (map fst M) \<and>
     (\<forall>v u. map_of M v = Some u \<longrightarrow> (u, v) \<in> E) \<and>
     inj_on (map_of M) (dom (map_of M)) \<and>
     (\<forall>u. map_of pred u = Some Unmatched \<longrightarrow> u \<notin> ran (map_of M)) \<and>
     (\<forall>u w. map_of pred u = Some (Via w) \<longrightarrow> map_of M w = Some u) \<and>
     (\<forall>v L u. map_of preds v = Some L \<longrightarrow> u \<in> set L \<longrightarrow> (u, v) \<in> E)"

text \<open>What a call \<open>recurse(v)\<close>, started on \<open>pred\<close>, \<open>preds\<close>, \<open>M\<close>, leaves behind.\<close>

definition recurse_post ::
  "(nat \<times> nat) set \<Rightarrow> nat \<Rightarrow> pred \<Rightarrow> preds \<Rightarrow> matching
     \<Rightarrow> bool \<times> pred \<times> preds \<times> matching \<Rightarrow> bool" where
  "recurse_post E v pred preds M r \<longleftrightarrow>
     (case r of (found, pred', preds', M') \<Rightarrow>
        search_inv E pred' preds' M' \<and>
        map_of pred' \<subseteq>\<^sub>m map_of pred \<and>
        map_of preds' \<subseteq>\<^sub>m map_of preds \<and>
        length preds' \<le> length preds \<and>
        (\<forall>x. x \<noteq> v \<longrightarrow> map_of preds x = None \<longrightarrow> map_of M' x = map_of M x) \<and>
        (\<not> found \<longrightarrow> M' = M) \<and>
        (found \<longrightarrow> dom (map_of M') = insert v (dom (map_of M)) \<and>
                   (\<forall>u0. map_of M v = Some u0 \<longrightarrow> u0 \<notin> ran (map_of M'))))"

text \<open>
  The layers behind \<open>pred\<close> and \<open>preds\<close>, up to layer \<open>n\<close>: a vertex \<open>v\<close> reached in layer
  \<open>rv v\<close> has a non-empty list of predecessors, all still in \<open>pred\<close> and of the same
  layer; a vertex \<open>u\<close> of layer \<open>ru u\<close> entered from \<open>w\<close> has \<open>w\<close> still in \<open>preds\<close>, in an
  earlier layer.
\<close>

definition layered :: "(nat \<Rightarrow> nat) \<Rightarrow> (nat \<Rightarrow> nat) \<Rightarrow> nat \<Rightarrow> pred \<Rightarrow> preds \<Rightarrow> bool" where
  "layered ru rv n pred preds \<longleftrightarrow>
     (\<forall>v L. map_of preds v = Some L \<longrightarrow> rv v \<le> n \<longrightarrow>
        L \<noteq> [] \<and> (\<forall>u\<in>set L. map_of pred u \<noteq> None \<and> ru u = rv v)) \<and>
     (\<forall>u w. map_of pred u = Some (Via w) \<longrightarrow> ru u \<le> n \<longrightarrow>
        map_of preds w \<noteq> None \<and> rv w < ru u)"

text \<open>What holds of \<^verbatim>\<open>newLayer\<close> while it is built from the vertices \<open>S\<close> of the current
  layer: its keys are new to \<open>preds\<close>, and each is listed with a non-empty list of
  neighbours in \<open>S\<close>.\<close>

definition newLayer_ok :: "(nat \<times> nat) set \<Rightarrow> preds \<Rightarrow> nat set \<Rightarrow> (nat \<times> nat list) list \<Rightarrow> bool" where
  "newLayer_ok E preds S newLayer \<longleftrightarrow>
     distinct (map fst newLayer) \<and>
     (\<forall>v L. map_of newLayer v = Some L \<longrightarrow>
        map_of preds v = None \<and> L \<noteq> [] \<and> (\<forall>u\<in>set L. u \<in> S \<and> (u, v) \<in> E))"

text \<open>
  What holds at the head of the layering loop, with \<open>k\<close> the number of the current
  layer: the search invariant and the layer structure; the current layer is in \<open>pred\<close>;
  every other vertex of \<open>pred\<close> has all its neighbours in \<open>preds\<close>; a matched vertex of
  \<open>preds\<close> has its partner in \<open>pred\<close>, an unmatched one is in \<open>unmatched\<close>; and every free
  vertex of the graph is in \<open>pred\<close>.
\<close>

definition layer_inv ::
  "graph \<Rightarrow> matching \<Rightarrow> (nat \<Rightarrow> nat) \<Rightarrow> (nat \<Rightarrow> nat) \<Rightarrow> nat
     \<Rightarrow> pred \<Rightarrow> preds \<Rightarrow> nat list \<Rightarrow> nat list \<Rightarrow> bool" where
  "layer_inv g M ru rv k pred preds layer unmatched \<longleftrightarrow>
     search_inv (edges_of g) pred preds M \<and>
     (\<forall>n. layered ru rv n pred preds) \<and>
     (\<forall>u\<in>set layer. map_of pred u \<noteq> None \<and> ru u = k) \<and>
     (\<forall>u. map_of pred u \<noteq> None \<longrightarrow>
        u \<in> set layer \<or> (\<forall>v. (u, v) \<in> edges_of g \<longrightarrow> map_of preds v \<noteq> None)) \<and>
     (\<forall>v u. map_of preds v \<noteq> None \<longrightarrow> map_of M v = Some u \<longrightarrow> map_of pred u = Some (Via v)) \<and>
     (\<forall>v. map_of preds v \<noteq> None \<longrightarrow> map_of M v = None \<longrightarrow> v \<in> set unmatched) \<and>
     (\<forall>v\<in>set unmatched. map_of preds v \<noteq> None \<and> map_of M v = None) \<and>
     (\<forall>u. map_of g u \<noteq> None \<longrightarrow> u \<notin> ran (map_of M) \<longrightarrow> map_of pred u \<noteq> None) \<and>
     (\<forall>u. map_of pred u \<noteq> None \<longrightarrow> map_of g u \<noteq> None) \<and>
     (\<forall>v. map_of preds v \<noteq> None \<longrightarrow> v \<in> snd ` edges_of g)"

section \<open>Theorems\<close>

lemma remap_total:
  "set ss \<subseteq> fst ` set al \<Longrightarrow>
   \<exists>js. remap al ss = Inr js \<and> length js = length ss \<and>
        (\<forall>i<length ss. map_of al (ss ! i) = Some (js ! i))"
proof (induction ss)
  case Nil
  then show ?case by simp
next
  case (Cons s ss)
  from Cons.prems have sub: "set ss \<subseteq> fst ` set al" by simp
  from Cons.IH [OF sub] obtain js where js: "remap al ss = Inr js" "length js = length ss"
    "\<forall>i<length ss. map_of al (ss ! i) = Some (js ! i)"
    by blast
  from Cons.prems have "s \<in> fst ` set al" by simp
  then have "s \<in> dom (map_of al)" by (simp add: dom_map_of_conv_image_fst)
  then obtain k where k: "map_of al s = Some k" by blast
  have nth: "map_of al ((s # ss) ! i) = Some ((k # js) ! i)" if "i < length (s # ss)" for i
  proof (cases i)
    case 0
    then show ?thesis using k by simp
  next
    case (Suc n)
    then show ?thesis using js(3) that by simp
  qed
  have "remap al (s # ss) = Inr (k # js)" using js(1) k by simp
  moreover have "length (k # js) = length (s # ss)" using js(2) by simp
  ultimately show ?case using nth by blast
qed

lemma map_of_zip_index:
  assumes "distinct xs" "i < length xs"
  shows "map_of (zip xs [0..<length xs]) (xs ! i) = Some i"
proof -
  have "(xs ! i, i) \<in> set (zip xs [0..<length xs])"
    using assms(2) by (force simp: set_zip)
  moreover have "distinct (map fst (zip xs [0..<length xs]))"
    using assms(1) by simp
  ultimately show ?thesis by simp
qed

lemma map_of_index_zip:
  assumes "i < length xs"
  shows "map_of (zip [0..<length xs] xs) i = Some (xs ! i)"
proof -
  have "(i, xs ! i) \<in> set (zip [0..<length xs] xs)"
    using assms by (force simp: set_zip)
  moreover have "distinct (map fst (zip [0..<length xs] xs))"
    by simp
  ultimately show ?thesis by simp
qed

text \<open>
  C10. For every label list, \<open>index_labels\<close> returns a pair \<open>(indices, index_to_label)\<close>:
  \<open>indices\<close> is as long as the input; at every position \<open>i\<close>,
  \<open>index_to_label[indices[i]]\<close> is the case-folded label when \<open>case_sensitive\<close> is false
  and the label itself when it is true; and two positions whose (folded) labels are equal
  receive the same index.
\<close>

theorem index_labels_roundtrip:
  "\<exists>indices index_to_label.
     index_labels labels cs = Inr (indices, index_to_label) \<and>
     length indices = length labels \<and>
     (\<forall>i<length labels.
        map_of index_to_label (indices ! i) =
          Some (if cs then labels ! i else lower (labels ! i))) \<and>
     (\<forall>i<length labels. \<forall>j<length labels.
        (if cs then labels ! i else lower (labels ! i)) =
        (if cs then labels ! j else lower (labels ! j)) \<longrightarrow> indices ! i = indices ! j)"
proof -
  define labels1 where "labels1 = (if \<not> cs then map lower labels else labels)"
  define uniq where "uniq = sort (remdups labels1)"
  define l2i where "l2i = zip uniq [0..<length uniq]"
  define i2l where "i2l = zip [0..<length uniq] uniq"
  have len1: "length labels1 = length labels"
    by (simp add: labels1_def)
  have nth1: "labels1 ! i = (if cs then labels ! i else lower (labels ! i))"
    if "i < length labels" for i
    using that by (simp add: labels1_def)
  have dist: "distinct uniq"
    by (simp add: uniq_def)
  have setu: "set uniq = set labels1"
    by (simp add: uniq_def)
  have "map fst l2i = uniq"
    by (simp add: l2i_def)
  then have "fst ` set l2i = set uniq"
    using set_map [of fst l2i] by simp
  then have "set labels1 \<subseteq> fst ` set l2i"
    using setu by simp
  from remap_total [OF this] obtain indices where ind:
    "remap l2i labels1 = Inr indices" "length indices = length labels1"
    "\<forall>i<length labels1. map_of l2i (labels1 ! i) = Some (indices ! i)"
    by blast
  have "index_labels labels cs =
        (case remap l2i labels1 of Inl e \<Rightarrow> Inl e | Inr indices \<Rightarrow> Inr (indices, i2l))"
    unfolding index_labels_def Let_def l2i_def i2l_def uniq_def labels1_def ..
  then have res: "index_labels labels cs = Inr (indices, i2l)"
    by (simp only: ind(1) sum.case)
  have inv: "map_of i2l (indices ! i) = Some (labels1 ! i)" if "i < length labels" for i
  proof -
    have "labels1 ! i \<in> set uniq"
      using that len1 setu by simp
    then obtain k where k: "k < length uniq" "uniq ! k = labels1 ! i"
      unfolding in_set_conv_nth by blast
    have "map_of l2i (uniq ! k) = Some k"
      unfolding l2i_def by (rule map_of_zip_index [OF dist k(1)])
    moreover have "map_of l2i (labels1 ! i) = Some (indices ! i)"
      using ind(3) that len1 by simp
    ultimately have "indices ! i = k"
      using k(2) by simp
    moreover have "map_of i2l k = Some (uniq ! k)"
      unfolding i2l_def by (rule map_of_index_zip [OF k(1)])
    ultimately show ?thesis
      using k(2) by simp
  qed
  have same: "indices ! i = indices ! j"
    if "i < length labels" "j < length labels" "labels1 ! i = labels1 ! j" for i j
  proof -
    have "map_of l2i (labels1 ! i) = Some (indices ! i)"
      using ind(3) that(1) len1 by simp
    moreover have "map_of l2i (labels1 ! j) = Some (indices ! j)"
      using ind(3) that(2) len1 by simp
    ultimately show ?thesis
      using that(3) by simp
  qed
  have p2: "length indices = length labels"
    using ind(2) len1 by simp
  have p3: "\<forall>i<length labels.
        map_of i2l (indices ! i) = Some (if cs then labels ! i else lower (labels ! i))"
  proof (intro allI impI)
    fix i assume "i < length labels"
    then show "map_of i2l (indices ! i) = Some (if cs then labels ! i else lower (labels ! i))"
      using inv [of i] nth1 [of i] by (simp only:)
  qed
  have p4: "\<forall>i<length labels. \<forall>j<length labels.
        (if cs then labels ! i else lower (labels ! i)) =
        (if cs then labels ! j else lower (labels ! j)) \<longrightarrow> indices ! i = indices ! j"
  proof (intro allI impI)
    fix i j assume "i < length labels" "j < length labels"
      "(if cs then labels ! i else lower (labels ! i)) =
       (if cs then labels ! j else lower (labels ! j))"
    then show "indices ! i = indices ! j"
      using same [of i j] nth1 [of i] nth1 [of j] by (simp only:)
  qed
  from res p2 p3 p4 show ?thesis by blast
qed

theorem index_labels_roundtrip_witness:
  "\<exists>indices index_to_label.
     index_labels [''B'', ''a'', ''b''] False = Inr (indices, index_to_label) \<and>
     length indices = 3 \<and>
     map_of index_to_label (indices ! 0) = Some ''b'' \<and>
     map_of index_to_label (indices ! 1) = Some ''a'' \<and>
     indices ! 0 = indices ! 2"
proof -
  have l: "lower ''B'' = ''b''" "lower ''a'' = ''a''" "lower ''b'' = ''b''"
    by (simp_all add: lower_def lower_char_def char_of_def bit_0)
  from index_labels_roundtrip [of "[''B'', ''a'', ''b'']" False]
  obtain indices index_to_label where r:
    "index_labels [''B'', ''a'', ''b''] False = Inr (indices, index_to_label)"
    "length indices = length [''B'', ''a'', ''b'']"
    "\<forall>i<length [''B'', ''a'', ''b''].
        map_of index_to_label (indices ! i) =
          Some (if False then [''B'', ''a'', ''b''] ! i else lower ([''B'', ''a'', ''b''] ! i))"
    "\<forall>i<length [''B'', ''a'', ''b'']. \<forall>j<length [''B'', ''a'', ''b''].
        (if False then [''B'', ''a'', ''b''] ! i else lower ([''B'', ''a'', ''b''] ! i)) =
        (if False then [''B'', ''a'', ''b''] ! j else lower ([''B'', ''a'', ''b''] ! j))
        \<longrightarrow> indices ! i = indices ! j"
    by blast
  have "map_of index_to_label (indices ! 0) = Some ''b''"
    using r(3) [THEN spec, of 0] l by simp
  moreover have "map_of index_to_label (indices ! 1) = Some ''a''"
    using r(3) [THEN spec, of 1] l by simp
  moreover have "indices ! 0 = indices ! 2"
    using r(4) [THEN spec, of 0, THEN mp, THEN spec, of 2] l by simp
  ultimately show ?thesis using r(1,2) by simp
qed

text \<open>
  C7. For a strictly increasing sequence of \<open>n \<ge> 2\<close> boundaries,
  \<open>boundaries_to_intervals\<close> returns \<open>n - 1\<close> intervals, the \<open>k\<close>-th being
  \<open>(b\<^sub>k, b\<^sub>k\<^sub>+\<^sub>1)\<close>; a label list of length \<open>n\<close> comes back without its last label
  (length \<open>n - 1\<close>), and no labels come back as no labels.
\<close>

theorem boundaries_to_intervals_spec:
  assumes "2 \<le> length boundaries" and "sorted_wrt (<) boundaries"
  shows "length (fst (boundaries_to_intervals boundaries labels)) = length boundaries - 1 \<and>
         (\<forall>k<length boundaries - 1.
            fst (boundaries_to_intervals boundaries labels) ! k
              = (boundaries ! k, boundaries ! (k + 1))) \<and>
         (\<forall>ls. labels = Some ls \<and> length ls = length boundaries \<longrightarrow>
            snd (boundaries_to_intervals boundaries labels) = Some (butlast ls) \<and>
            butlast ls = take (length boundaries - 1) ls \<and>
            length (butlast ls) = length boundaries - 1) \<and>
         (labels = None \<longrightarrow> snd (boundaries_to_intervals boundaries labels) = None)"
  by (auto simp: boundaries_to_intervals_def nth_butlast nth_tl butlast_conv_take)

theorem boundaries_to_intervals_spec_witness:
  "2 \<le> length [0, 1, 3 :: int] \<and> sorted_wrt (<) [0, 1, 3 :: int] \<and>
   boundaries_to_intervals [0, 1, 3 :: int] (Some [''a'', ''b'', ''c''])
     = ([(0, 1), (1, 3)], Some [''a'', ''b''])"
proof -
  have h1: "2 \<le> length [0, 1, 3 :: int]" by simp
  have h2: "sorted_wrt (<) [0, 1, 3 :: int]" by simp
  note t = boundaries_to_intervals_spec [OF h1 h2, of "Some [''a'', ''b'', ''c'']"]
  have "boundaries_to_intervals [0, 1, 3 :: int] (Some [''a'', ''b'', ''c''])
     = ([(0, 1), (1, 3)], Some [''a'', ''b''])"
    by (simp add: boundaries_to_intervals_def)
  with h1 h2 t show ?thesis by simp
qed

text \<open>
  C8 (as amended). \<open>f_measure\<close> returns exactly \<open>0.0\<close> whenever precision and recall both
  compare equal to zero, for every \<open>beta\<close>. For all other inputs it returns the value of
  \<open>(1 + beta\<^sup>2) * precision * recall / (beta\<^sup>2 * precision + recall)\<close> provided that
  \<open>beta ** 2\<close> does not overflow and that the denominator does not compare equal to zero;
  when \<open>beta ** 2\<close> overflows the call raises \<open>OverflowError\<close>, and when the denominator
  is zero it raises \<open>ZeroDivisionError\<close>. This holds for every arithmetic.
\<close>

theorem f_measure_spec:
  "(num_is_zero A p \<and> num_is_zero A r \<longrightarrow> f_measure A p r beta = Inr (num_zero A)) \<and>
   (\<not> (num_is_zero A p \<and> num_is_zero A r) \<longrightarrow> num_pow2 A beta = None \<longrightarrow>
      f_measure A p r beta = Inl OverflowError) \<and>
   (\<not> (num_is_zero A p \<and> num_is_zero A r) \<longrightarrow> num_pow2 A beta = Some b2 \<longrightarrow>
      num_is_zero A (num_add A (num_mul A b2 p) r) \<longrightarrow>
      f_measure A p r beta = Inl ZeroDivisionError) \<and>
   (\<not> (num_is_zero A p \<and> num_is_zero A r) \<longrightarrow> num_pow2 A beta = Some b2 \<longrightarrow>
      \<not> num_is_zero A (num_add A (num_mul A b2 p) r) \<longrightarrow>
      f_measure A p r beta =
        Inr (num_div A (num_mul A (num_mul A (num_add A (num_one A) b2) p) r)
                       (num_add A (num_mul A b2 p) r)))"
  by (simp add: f_measure_def Let_def)

lemma exact_arith_simps:
  "num_is_zero exact_arith x \<longleftrightarrow> x = 0"
  "num_pow2 exact_arith x = (if x\<^sup>2 < 2 ^ 1024 then Some (x\<^sup>2) else None)"
  "num_add exact_arith x y = x + y"
  "num_mul exact_arith x y = x * y"
  "num_div exact_arith x y = x / y"
  "num_zero exact_arith = 0"
  "num_one exact_arith = 1"
  by (simp_all add: exact_arith_def)

lemma exact_arith_pow2:
  "num_pow2 exact_arith 0 = Some 0"
  "num_pow2 exact_arith 1 = Some 1"
  "num_pow2 exact_arith (2 ^ 600) = None"
proof -
  have "(0::real) < 2 ^ 1024" by simp
  then show "num_pow2 exact_arith 0 = Some 0"
    by (simp add: exact_arith_simps)
  have "(1::real) < 2 ^ 1024" by (rule one_less_power) simp_all
  then show "num_pow2 exact_arith 1 = Some 1"
    by (simp add: exact_arith_simps)
  have "((2::real) ^ 600)\<^sup>2 = 2 ^ 1200"
    by (simp flip: power_mult)
  moreover have "\<not> (2::real) ^ 1200 < 2 ^ 1024"
    by (simp only: power_strict_increasing_iff)
  ultimately show "num_pow2 exact_arith (2 ^ 600) = None"
    by (simp only: exact_arith_simps if_False)
qed

theorem f_measure_spec_witness:
  "f_measure exact_arith 0 0 1 = Inr 0 \<and>
   f_measure exact_arith (1/2) (1/2) (2 ^ 600) = Inl OverflowError \<and>
   f_measure exact_arith (1/2) 0 0 = Inl ZeroDivisionError \<and>
   f_measure exact_arith (1/2) (1/2) 1 = Inr (1/2)"
proof -
  note p = exact_arith_pow2 and a = exact_arith_simps(1,3-7)
  have "f_measure exact_arith 0 0 1 = Inr 0"
    using f_measure_spec [of exact_arith 0 0 1] by (simp add: a)
  moreover have "f_measure exact_arith (1/2) (1/2) (2 ^ 600) = Inl OverflowError"
    using f_measure_spec [of exact_arith "1/2" "1/2" "2 ^ 600"] p(3) by (simp add: a)
  moreover have "f_measure exact_arith (1/2) 0 0 = Inl ZeroDivisionError"
    using f_measure_spec [of exact_arith "1/2" 0 0 0] p(1) by (simp add: a)
  moreover have "f_measure exact_arith (1/2) (1/2) 1 = Inr (1/2)"
    using f_measure_spec [of exact_arith "1/2" "1/2" 1 1] p(2) by (simp add: a)
  ultimately show ?thesis by blast
qed

text \<open>
  C8 as stated fails: precision \<open>1/2\<close>, recall \<open>1/2\<close> and \<open>beta = 2\<^sup>6\<^sup>0\<^sup>0\<close> are inside the
  documented ranges and are not the guarded input, yet \<open>beta ** 2\<close> overflows and the call
  raises; precision \<open>1/2\<close>, recall \<open>0\<close> and \<open>beta = 0\<close> are not the guarded input either,
  the denominator is zero and the call raises instead of returning the quotient.
\<close>

theorem f_measure_counterexample:
  "\<not> (num_is_zero exact_arith (1/2) \<and> num_is_zero exact_arith (1/2)) \<and>
   f_measure exact_arith (1/2) (1/2) (2 ^ 600) = Inl OverflowError \<and>
   \<not> (num_is_zero exact_arith (1/2) \<and> num_is_zero exact_arith 0) \<and>
   f_measure exact_arith (1/2) 0 0 = Inl ZeroDivisionError"
  using exact_arith_pow2
  by (simp add: f_measure_def Let_def exact_arith_simps(1,3-7))

text \<open>
  C5. On interval sequences with at least one row each, \<open>merge_labeled_intervals\<close> raises
  its alignment error (the module's \<open>ValueError\<close>, the specification's
  \<^verbatim>\<open>MisalignedIntervalsError\<close>) if and only if the first starts differ or the last ends
  differ; when both agree it does not raise it.
\<close>

lemma merge_loop_not_ValueError:
  "merge_loop xi xl yi yl out \<noteq> Inl ValueError"
proof (induction out)
  case Nil
  then show ?case by simp
next
  case (Cons iv out)
  obtain t0 t1 where iv: "iv = (t0, t1)" by (cases iv)
  have a: "active_label t0 xi xl \<noteq> Inl ValueError" "active_label t0 yi yl \<noteq> Inl ValueError"
    by (simp_all add: active_label_def Let_def)
  show ?case
    using a Cons.IH unfolding iv
    by (auto split: sum.splits prod.splits)
qed

theorem merge_labeled_intervals_misaligned_iff:
  assumes "x_intervals \<noteq> []" and "y_intervals \<noteq> []"
  shows "merge_labeled_intervals x_intervals x_labels y_intervals y_labels = Inl ValueError
         \<longleftrightarrow> (fst (hd x_intervals) \<noteq> fst (hd y_intervals)
              \<or> snd (last x_intervals) \<noteq> snd (last y_intervals))"
proof (cases "fst (hd x_intervals) \<noteq> fst (hd y_intervals)
              \<or> snd (last x_intervals) \<noteq> snd (last y_intervals)")
  case True
  then show ?thesis
    using assms by (simp add: merge_labeled_intervals_def)
next
  case False
  have "merge_labeled_intervals x_intervals x_labels y_intervals y_labels \<noteq> Inl ValueError"
    using assms False merge_loop_not_ValueError [of x_intervals _ y_intervals]
    by (auto simp: merge_labeled_intervals_def Let_def split: option.splits sum.splits prod.splits)
  with False show ?thesis by simp
qed

theorem merge_labeled_intervals_misaligned_iff_witness:
  "[(0, 1), (1, 2 :: int)] \<noteq> [] \<and> [(0, 3 :: int)] \<noteq> [] \<and>
   merge_labeled_intervals [(0, 1), (1, 2 :: int)] (Some [''a'', ''b'']) [(0, 3)] (Some [''c''])
     = Inl ValueError \<and>
   merge_labeled_intervals [(0, 1), (1, 2 :: int)] (Some [''a'', ''b'']) [(0, 2)] (Some [''c''])
     \<noteq> Inl ValueError"
proof -
  have h1: "[(0, 1), (1, 2 :: int)] \<noteq> []" and h2: "[(0, 3 :: int)] \<noteq> []"
    and h3: "[(0, 2 :: int)] \<noteq> []"
    by simp_all
  show ?thesis
    using merge_labeled_intervals_misaligned_iff [OF h1 h2, of "Some [''a'', ''b'']" "Some [''c'']"]
      merge_labeled_intervals_misaligned_iff [OF h1 h3, of "Some [''a'', ''b'']" "Some [''c'']"]
    by simp
qed

subsection \<open>\<open>adjust_intervals\<close> and \<open>adjust_events\<close>\<close>

lemma argwhere_empty_iff: "argwhere P xs = [] \<longleftrightarrow> (\<forall>i<length xs. \<not> P (xs ! i))"
  by (auto simp: argwhere_def filter_empty_conv)

lemma argwhere_hd:
  assumes "argwhere P xs \<noteq> []"
  shows "hd (argwhere P xs) < length xs"
    and "P (xs ! hd (argwhere P xs))"
    and "\<forall>j<hd (argwhere P xs). \<not> P (xs ! j)"
proof -
  obtain k ks where k: "filter (\<lambda>i. P (xs ! i)) [0..<length xs] = k # ks"
    using assms by (cases "argwhere P xs") (auto simp: argwhere_def)
  then obtain us vs where uv: "[0..<length xs] = us @ k # vs" "\<forall>u\<in>set us. \<not> P (xs ! u)"
    "P (xs ! k)"
    unfolding filter_eq_Cons_iff by blast
  have hd: "hd (argwhere P xs) = k"
    using k by (simp add: argwhere_def)
  have "k \<in> set [0..<length xs]"
    unfolding uv(1) by simp
  then have klt: "k < length xs" by simp
  have lus: "length us < length xs"
    using arg_cong [OF uv(1), of length] by simp
  have "[0..<length xs] ! length us = k"
    unfolding uv(1) by simp
  then have kus: "k = length us"
    using lus by simp
  have "\<not> P (xs ! j)" if "j < k" for j
  proof -
    have "[0..<length xs] ! j = us ! j"
      unfolding uv(1) using that kus by (simp add: nth_append)
    then have "us ! j = j"
      using that klt by simp
    then have "j \<in> set us"
      using that kus by (metis nth_mem)
    with uv(2) show ?thesis by blast
  qed
  then show "hd (argwhere P xs) < length xs" "P (xs ! hd (argwhere P xs))"
    "\<forall>j<hd (argwhere P xs). \<not> P (xs ! j)"
    using hd klt uv(3) by simp_all
qed

lemma contiguous_iff:
  "contiguous ivs \<longleftrightarrow> (\<forall>k. Suc k < length ivs \<longrightarrow> snd (ivs ! k) = fst (ivs ! Suc k))"
proof (induction ivs rule: contiguous.induct)
  case (1 a b rest)
  show ?case
  proof
    assume c: "contiguous (a # b # rest)"
    then have ab: "snd a = fst b" and r: "contiguous (b # rest)" by simp_all
    show "\<forall>k. Suc k < length (a # b # rest) \<longrightarrow>
            snd ((a # b # rest) ! k) = fst ((a # b # rest) ! Suc k)"
    proof (intro allI impI)
      fix k assume k: "Suc k < length (a # b # rest)"
      show "snd ((a # b # rest) ! k) = fst ((a # b # rest) ! Suc k)"
      proof (cases k)
        case 0
        then show ?thesis using ab by simp
      next
        case (Suc m)
        then have "Suc m < length (b # rest)" using k by simp
        with r "1.IH" have "snd ((b # rest) ! m) = fst ((b # rest) ! Suc m)" by blast
        then show ?thesis using Suc by simp
      qed
    qed
  next
    assume h: "\<forall>k. Suc k < length (a # b # rest) \<longrightarrow>
            snd ((a # b # rest) ! k) = fst ((a # b # rest) ! Suc k)"
    from h [THEN spec, of 0] have ab: "snd a = fst b" by simp
    have "\<forall>k. Suc k < length (b # rest) \<longrightarrow> snd ((b # rest) ! k) = fst ((b # rest) ! Suc k)"
    proof (intro allI impI)
      fix k assume "Suc k < length (b # rest)"
      then have "Suc (Suc k) < length (a # b # rest)" by simp
      from h [THEN spec, of "Suc k", THEN mp, OF this]
      show "snd ((b # rest) ! k) = fst ((b # rest) ! Suc k)" by simp
    qed
    with "1.IH" have "contiguous (b # rest)" by blast
    with ab show "contiguous (a # b # rest)" by simp
  qed
qed simp_all

lemma contiguous_drop: "contiguous ivs \<Longrightarrow> contiguous (drop n ivs)"
  unfolding contiguous_iff by (auto simp: add.commute)

lemma contiguous_take: "contiguous ivs \<Longrightarrow> contiguous (take n ivs)"
  unfolding contiguous_iff by auto

lemma contiguous_map: "contiguous ivs \<Longrightarrow> contiguous (map (\<lambda>(x, y). (f x, f y)) ivs)"
  unfolding contiguous_iff by (auto simp: case_prod_unfold)

lemma contiguous_Cons_hd: "ivs \<noteq> [] \<Longrightarrow> contiguous ivs \<Longrightarrow> contiguous ((a, fst (hd ivs)) # ivs)"
  by (cases ivs) simp_all

lemma contiguous_snoc_last:
  assumes "ivs \<noteq> []" and "contiguous ivs"
  shows "contiguous (ivs @ [(snd (last ivs), b)])"
  unfolding contiguous_iff
proof (intro allI impI)
  fix k assume k: "Suc k < length (ivs @ [(snd (last ivs), b)])"
  show "snd ((ivs @ [(snd (last ivs), b)]) ! k) = fst ((ivs @ [(snd (last ivs), b)]) ! Suc k)"
  proof (cases "Suc k < length ivs")
    case True
    then show ?thesis
      using assms(2) unfolding contiguous_iff by (simp add: nth_append)
  next
    case False
    with k have "k = length ivs - 1" "k < length ivs" "\<not> Suc k < length ivs" by simp_all
    then show ?thesis
      using assms(1) by (simp add: nth_append last_conv_nth)
  qed
qed

lemma wf_map_max:
  assumes "\<forall>iv\<in>set ivs. fst iv \<le> snd iv"
  shows "\<forall>iv\<in>set (map (\<lambda>(x, y). (max a x, max (a::'a::linorder) y)) ivs). fst iv \<le> snd iv"
proof
  fix iv assume "iv \<in> set (map (\<lambda>(x, y). (max a x, max a y)) ivs)"
  then obtain x y where xy: "(x, y) \<in> set ivs" "iv = (max a x, max a y)" by auto
  from assms xy(1) have "x \<le> y" by fastforce
  then show "fst iv \<le> snd iv" unfolding xy(2) by (auto simp: max_def)
qed

lemma wf_map_min:
  assumes "\<forall>iv\<in>set ivs. fst iv \<le> snd iv"
  shows "\<forall>iv\<in>set (map (\<lambda>(x, y). (min b x, min (b::'a::linorder) y)) ivs). fst iv \<le> snd iv"
proof
  fix iv assume "iv \<in> set (map (\<lambda>(x, y). (min b x, min b y)) ivs)"
  then obtain x y where xy: "(x, y) \<in> set ivs" "iv = (min b x, min b y)" by auto
  from assms xy(1) have "x \<le> y" by fastforce
  then show "fst iv \<le> snd iv" unfolding xy(2) by (auto simp: min_def)
qed

lemma adjust_t_min_props:
  assumes "adjust_t_min a pfx ivs labels s = (Inr (out, l1), s1)"
  shows "out \<noteq> []" and "fst (hd out) = a"
    and "contiguous ivs \<Longrightarrow> contiguous out"
    and "(\<forall>iv\<in>set ivs. fst iv \<le> snd iv) \<Longrightarrow> (\<forall>iv\<in>set out. fst iv \<le> snd iv)"
proof -
  define ivs1 where "ivs1 = cropped_t_min a ivs"
  define ivs2 where "ivs2 = map (\<lambda>(x, y). (max a x, max a y)) ivs1"
  have out: "ivs2 \<noteq> [] \<and> out = (if fst (hd ivs2) > a then (a, fst (hd ivs2)) # ivs2 else ivs2)"
    using assms unfolding adjust_t_min_def ivs2_def ivs1_def cropped_t_min_def Let_def
    by (auto split: list.splits if_splits prod.splits option.splits)
  then have ne: "ivs2 \<noteq> []" by simp
  then have "ivs1 \<noteq> []" by (simp add: ivs2_def)
  then have "fst (hd ivs2) = max a (fst (hd ivs1))"
    by (cases ivs1) (auto simp: ivs2_def)
  then have ge: "a \<le> fst (hd ivs2)" by simp
  show "out \<noteq> []" using out by simp
  show "fst (hd out) = a" using out ge by auto
  have set1: "set ivs1 \<subseteq> set ivs"
    by (auto simp: ivs1_def cropped_t_min_def Let_def dest: in_set_dropD)
  {
    assume c: "contiguous ivs"
    then have "contiguous ivs1"
      by (simp add: ivs1_def cropped_t_min_def Let_def contiguous_drop)
    then have "contiguous ivs2"
      unfolding ivs2_def by (rule contiguous_map)
    then show "contiguous out"
      using out contiguous_Cons_hd [OF ne] by simp
  }
  {
    assume w: "\<forall>iv\<in>set ivs. fst iv \<le> snd iv"
    have w2: "\<forall>iv\<in>set ivs2. fst iv \<le> snd iv"
      unfolding ivs2_def using w set1 by (intro wf_map_max) blast
    show "\<forall>iv\<in>set out. fst iv \<le> snd iv"
    proof (cases "fst (hd ivs2) > a")
      case True
      then show ?thesis using out w2 by simp
    next
      case False
      then show ?thesis using out w2 by simp
    qed
  }
qed

lemma adjust_t_max_props:
  assumes "adjust_t_max b pfx ivs labels s = (Inr (out, l1), s1)"
  shows "out \<noteq> []" and "snd (last out) = b"
    and "fst (hd ivs) \<le> b" and "fst (hd out) = fst (hd ivs)"
    and "contiguous ivs \<Longrightarrow> contiguous out"
    and "(\<forall>iv\<in>set ivs. fst iv \<le> snd iv) \<Longrightarrow> (\<forall>iv\<in>set out. fst iv \<le> snd iv)"
proof -
  define ivs1 where "ivs1 = cropped_t_max b ivs"
  define ivs2 where "ivs2 = map (\<lambda>(x, y). (min b x, min b y)) ivs1"
  have out: "ivs2 \<noteq> [] \<and>
     out = (if snd (last ivs2) < b then ivs2 @ [(snd (last ivs2), b)] else ivs2)"
    using assms unfolding adjust_t_max_def ivs2_def ivs1_def cropped_t_max_def Let_def
    by (auto split: list.splits if_splits prod.splits option.splits)
  then have ne: "ivs2 \<noteq> []" by simp
  then have ne1: "ivs1 \<noteq> []" by (simp add: ivs2_def)
  have le: "snd (last ivs2) \<le> b"
    using ne1 by (simp add: ivs2_def last_map case_prod_unfold)
  show "out \<noteq> []" using out by simp
  show "snd (last out) = b" using out le by auto
  have set1: "set ivs1 \<subseteq> set ivs"
    by (auto simp: ivs1_def cropped_t_max_def Let_def dest: in_set_takeD)
  have ivs_ne: "ivs \<noteq> []" using ne1 set1 by auto
  have hd1: "hd ivs1 = hd ivs \<and> \<not> fst (ivs ! 0) > b"
  proof (cases "argwhere (\<lambda>iv. fst iv > b) ivs = []")
    case True
    then have "\<not> fst (ivs ! 0) > b"
      using ivs_ne unfolding argwhere_empty_iff by auto
    then show ?thesis using True by (simp add: ivs1_def cropped_t_max_def)
  next
    case False
    then have eq: "ivs1 = take (hd (argwhere (\<lambda>iv. fst iv > b) ivs)) ivs"
      by (simp add: ivs1_def cropped_t_max_def)
    with ne1 have pos: "0 < hd (argwhere (\<lambda>iv. fst iv > b) ivs)" by auto
    with argwhere_hd(3) [OF False] have "\<not> fst (ivs ! 0) > b" by blast
    moreover have "hd ivs1 = hd ivs" using eq pos by simp
    ultimately show ?thesis by simp
  qed
  then show hle: "fst (hd ivs) \<le> b"
    using ivs_ne by (auto simp: hd_conv_nth not_less)
  have "fst (hd ivs2) = min b (fst (hd ivs1))"
    using ne1 by (cases ivs1) (auto simp: ivs2_def)
  then have "fst (hd ivs2) = fst (hd ivs)"
    using hd1 hle by simp
  then show "fst (hd out) = fst (hd ivs)"
    using out ne by auto
  {
    assume c: "contiguous ivs"
    then have "contiguous ivs1"
      by (simp add: ivs1_def cropped_t_max_def Let_def contiguous_take)
    then have "contiguous ivs2"
      unfolding ivs2_def by (rule contiguous_map)
    then show "contiguous out"
      using out contiguous_snoc_last [OF ne] by simp
  }
  {
    assume w: "\<forall>iv\<in>set ivs. fst iv \<le> snd iv"
    have w2: "\<forall>iv\<in>set ivs2. fst iv \<le> snd iv"
      unfolding ivs2_def using w set1 by (intro wf_map_min) blast
    show "\<forall>iv\<in>set out. fst iv \<le> snd iv"
    proof (cases "snd (last ivs2) < b")
      case True
      then show ?thesis using out w2 by simp
    next
      case False
      then show ?thesis using out w2 by simp
    qed
  }
qed

text \<open>
  C6 (as amended). For every valid input (every interval has \<open>start \<le> end\<close>) on which
  \<open>adjust_intervals\<close> succeeds with both \<open>t_min\<close> and \<open>t_max\<close> given, the returned array
  has at least one row, its first interval starts at exactly \<open>t_min\<close>, its last interval
  ends at exactly \<open>t_max\<close>, and every returned interval has \<open>start \<le> end\<close>; if in addition
  the input intervals are contiguous (each interval's end equals the next interval's
  start), the returned intervals are contiguous too, that is, they tile \<open>[t_min, t_max]\<close>
  without gaps or overlaps.
\<close>

theorem adjust_intervals_span:
  assumes "adjust_intervals intervals labels (Some t_min) (Some t_max) label_prefix s
             = (Inr (out, labels'), s')"
    and "\<forall>iv\<in>set intervals. fst iv \<le> snd iv"
  shows "out \<noteq> [] \<and> fst (hd out) = t_min \<and> snd (last out) = t_max \<and>
         (\<forall>iv\<in>set out. fst iv \<le> snd iv) \<and>
         (contiguous intervals \<longrightarrow> contiguous out)"
proof -
  from assms(1) obtain ivs1 l1 s1 where
    m: "adjust_t_min t_min label_prefix intervals labels s = (Inr (ivs1, l1), s1)" and
    x: "adjust_t_max t_max label_prefix ivs1 l1 s1 = (Inr (out, labels'), s')"
    unfolding adjust_intervals_def
    by (auto split: prod.splits sum.splits)
  note pm = adjust_t_min_props [OF m] and px = adjust_t_max_props [OF x]
  have "fst (hd out) = t_min"
    using px(4) pm(2) by simp
  moreover have "contiguous intervals \<longrightarrow> contiguous out"
    using pm(3) px(5) by blast
  moreover have "\<forall>iv\<in>set out. fst iv \<le> snd iv"
    using pm(4) px(6) assms(2) by blast
  ultimately show ?thesis
    using px(1,2) by blast
qed

theorem adjust_intervals_span_witness:
  "adjust_intervals [(1, 2), (2, 5 :: int)] None (Some 0) (Some 4) ''__'' caller_store
     = (Inr ([(0, 1), (1, 2), (2, 4)], None), caller_store) \<and>
   contiguous [(1, 2), (2, 5 :: int)] \<and> contiguous [(0, 1), (1, 2), (2, 4 :: int)] \<and>
   fst (hd [(0, 1), (1, 2), (2, 4 :: int)]) = 0 \<and> snd (last [(0, 1), (1, 2), (2, 4 :: int)]) = 4"
proof -
  have e: "adjust_intervals [(1, 2), (2, 5 :: int)] None (Some 0) (Some 4) ''__'' caller_store
     = (Inr ([(0, 1), (1, 2), (2, 4)], None), caller_store)"
    by (simp add: adjust_intervals_def adjust_t_min_def adjust_t_max_def argwhere_def Let_def)
  have v: "\<forall>iv\<in>set [(1, 2), (2, 5 :: int)]. fst iv \<le> snd iv"
    by simp
  from adjust_intervals_span [OF e v] e show ?thesis by simp
qed

text \<open>
  C6 as stated fails on an input with a gap: the two intervals \<open>[0, 1]\<close> and \<open>[2, 3]\<close>,
  adjusted to \<open>[0, 3]\<close>, come back unchanged, and the first does not end where the second
  starts.
\<close>

theorem adjust_intervals_span_counterexample:
  "adjust_intervals [(0, 1), (2, 3 :: int)] None (Some 0) (Some 3) ''__'' caller_store
     = (Inr ([(0, 1), (2, 3)], None), caller_store) \<and>
   \<not> contiguous [(0, 1), (2, 3 :: int)] \<and>
   snd ([(0, 1), (2, 3 :: int)] ! 0) \<noteq> fst ([(0, 1), (2, 3 :: int)] ! 1)"
  by (simp add: adjust_intervals_def adjust_t_min_def adjust_t_max_def argwhere_def Let_def)

text \<open>No interval survives the \<open>t_max\<close> filter: then the crop of the code leaves none.\<close>

lemma surviving_t_max_empty:
  assumes "surviving_t_max b ivs = []"
  shows "cropped_t_max b ivs = []"
proof (cases ivs)
  case Nil
  then show ?thesis by (simp add: cropped_t_max_def argwhere_def)
next
  case (Cons iv rest)
  from assms have all: "\<forall>x\<in>set ivs. fst x > b"
    by (simp add: surviving_t_max_def filter_empty_conv)
  with Cons have p0: "fst (ivs ! 0) > b" by simp
  have ne: "argwhere (\<lambda>iv. fst iv > b) ivs \<noteq> []"
    using p0 Cons unfolding argwhere_empty_iff by auto
  have "hd (argwhere (\<lambda>iv. fst iv > b) ivs) = 0"
  proof (rule ccontr)
    assume "hd (argwhere (\<lambda>iv. fst iv > b) ivs) \<noteq> 0"
    then have "0 < hd (argwhere (\<lambda>iv. fst iv > b) ivs)" by simp
    with argwhere_hd(3) [OF ne] have "\<not> fst (ivs ! 0) > b" by blast
    with p0 show False by simp
  qed
  with ne show ?thesis by (simp add: cropped_t_max_def)
qed

text \<open>
  C4 (as amended). \<open>adjust_intervals\<close> fails with \<open>IndexError\<close>, the generic error of
  indexing an array without rows (the module has no \<open>InvalidInputError\<close>), when it is
  called on an empty interval array with \<open>t_min\<close> given, and whenever \<open>t_max\<close> is given and
  no interval that reaches the \<open>t_max\<close> step survives its filter (the intervals reaching
  that step are the input when \<open>t_min\<close> is \<open>None\<close>, and the result of the \<open>t_min\<close> step
  otherwise).
\<close>

theorem adjust_intervals_empty_IndexError:
  "(t_min = Some a \<longrightarrow> intervals = [] \<longrightarrow>
      fst (adjust_intervals intervals labels t_min t_max label_prefix s) = Inl IndexError) \<and>
   (t_min = None \<longrightarrow> t_max = Some b \<longrightarrow> surviving_t_max b intervals = [] \<longrightarrow>
      fst (adjust_intervals intervals labels t_min t_max label_prefix s) = Inl IndexError) \<and>
   (t_min = Some a \<longrightarrow> t_max = Some b \<longrightarrow>
      adjust_t_min a label_prefix intervals labels s = (Inr (ivs1, l1), s1) \<longrightarrow>
      surviving_t_max b ivs1 = [] \<longrightarrow>
      fst (adjust_intervals intervals labels t_min t_max label_prefix s) = Inl IndexError)"
proof -
  have tmin: "fst (adjust_t_min a label_prefix [] labels s) = Inl IndexError"
    unfolding adjust_t_min_def Let_def
    by (auto simp: argwhere_def split: prod.splits option.splits)
  have tmax: "fst (adjust_t_max b label_prefix ivs l t) = Inl IndexError"
    if "surviving_t_max b ivs = []" for ivs l t
    using surviving_t_max_empty [OF that] unfolding adjust_t_max_def cropped_t_max_def Let_def
    by (auto split: prod.splits option.splits if_splits)
  have c1: "t_min = Some a \<longrightarrow> intervals = [] \<longrightarrow>
      fst (adjust_intervals intervals labels t_min t_max label_prefix s) = Inl IndexError"
    using tmin by (auto simp: adjust_intervals_def split: prod.splits sum.splits)
  have c2: "t_min = None \<longrightarrow> t_max = Some b \<longrightarrow> surviving_t_max b intervals = [] \<longrightarrow>
      fst (adjust_intervals intervals labels t_min t_max label_prefix s) = Inl IndexError"
    using tmax by (auto simp: adjust_intervals_def)
  have c3: "t_min = Some a \<longrightarrow> t_max = Some b \<longrightarrow>
      adjust_t_min a label_prefix intervals labels s = (Inr (ivs1, l1), s1) \<longrightarrow>
      surviving_t_max b ivs1 = [] \<longrightarrow>
      fst (adjust_intervals intervals labels t_min t_max label_prefix s) = Inl IndexError"
    using tmax by (auto simp: adjust_intervals_def)
  from c1 c2 c3 show ?thesis by blast
qed

theorem adjust_intervals_empty_IndexError_witness:
  "fst (adjust_intervals ([] :: (int \<times> int) list) None (Some 0) None ''__'' caller_store)
     = Inl IndexError \<and>
   surviving_t_max (3 :: int) [(5, 6)] = [] \<and>
   fst (adjust_intervals [(5, 6 :: int)] None None (Some 3) ''__'' caller_store)
     = Inl IndexError \<and>
   adjust_t_min (4 :: int) ''__'' [(5, 6)] None caller_store
     = (Inr ([(4, 5), (5, 6)], None), caller_store) \<and>
   surviving_t_max (3 :: int) [(4, 5), (5, 6)] = [] \<and>
   fst (adjust_intervals [(5, 6 :: int)] None (Some 4) (Some 3) ''__'' caller_store)
     = Inl IndexError"
proof -
  have h2: "surviving_t_max (3 :: int) [(5, 6)] = []"
    by (simp add: surviving_t_max_def)
  have h3: "adjust_t_min (4 :: int) ''__'' [(5, 6)] None caller_store
     = (Inr ([(4, 5), (5, 6)], None), caller_store)"
    by (simp add: adjust_t_min_def argwhere_def Let_def)
  have h4: "surviving_t_max (3 :: int) [(4, 5), (5, 6)] = []"
    by (simp add: surviving_t_max_def)
  from adjust_intervals_empty_IndexError
         [of "Some 0" "0 :: int" "[]" None None "''__''" caller_store]
       adjust_intervals_empty_IndexError
         [of None _ "[(5, 6 :: int)]" None "Some 3" "''__''" caller_store 3]
       adjust_intervals_empty_IndexError
         [of "Some 4" "4 :: int" "[(5, 6)]" None "Some 3" "''__''" caller_store 3
             "[(4, 5), (5, 6)]" None caller_store]
       h2 h3 h4
  show ?thesis by simp
qed

text \<open>
  C4 as stated fails, twice. On an empty interval array (with the default \<open>t_min = 0\<close>)
  the call fails with \<open>IndexError\<close>, not with \<open>InvalidInputError\<close>. And on the intervals
  \<open>[0, 1]\<close> and \<open>[1, 2]\<close> with \<open>t_min = 5\<close>, where every interval ends strictly before
  \<open>t_min\<close> and none survives the filter, the call does not fail at all: nothing is
  cropped, the rows are clipped to \<open>t_min\<close> and returned. The \<open>t_min\<close> step is not symmetric
  to the \<open>t_max\<close> step here, against the function's own description ("any intervals
  lying completely outside the specified range will be removed"); the amended statement
  above therefore says nothing of that case.
\<close>

theorem adjust_intervals_empty_counterexample:
  "fst (adjust_intervals ([] :: (int \<times> int) list) None (Some 0) None ''__'' caller_store)
     = Inl IndexError \<and>
   fst (adjust_intervals ([] :: (int \<times> int) list) None (Some 0) None ''__'' caller_store)
     \<noteq> Inl InvalidInputError \<and>
   surviving_t_min (5 :: int) [(0, 1), (1, 2)] = [] \<and>
   fst (adjust_intervals [(0, 1), (1, 2 :: int)] None (Some 5) None ''__'' caller_store)
     = Inr ([(5, 5), (5, 5)], None)"
  by (simp add: surviving_t_min_def adjust_intervals_def adjust_t_min_def argwhere_def Let_def)

text \<open>
  C9 fails on the code. With \<open>t_min = None\<close> and \<open>t_max = 2\<close>, the labels of the single
  interval \<open>[0, 1]\<close> are never sliced, so \<^verbatim>\<open>labels.append\<close> writes \<open>__T_MAX\<close> into the
  caller's own list, which held \<open>['a']\<close> before the call; \<open>adjust_events\<close> does the same
  on the single event \<open>1\<close>. (With a slice taken, as for \<open>t_min = 0\<close>, the caller's list
  is left alone.)
\<close>

theorem adjust_mutates_caller_labels:
  "cells caller_store 0 = [''a''] \<and>
   cells (snd (adjust_intervals [(0, 1 :: int)] (Some 0) None (Some 2) ''__'' caller_store)) 0
     = [''a'', ''__T_MAX''] \<and>
   cells (snd (adjust_events [1 :: int] (Some 0) None (Some 2) ''__'' caller_store)) 0
     = [''a'', ''__T_MAX''] \<and>
   cells (snd (adjust_intervals [(0, 1 :: int)] (Some 0) (Some 0) (Some 2) ''__'' caller_store)) 0
     = [''a'']"
  by (simp add: adjust_intervals_def adjust_t_min_def adjust_t_max_def adjust_events_def
      adjust_events_t_max_def argwhere_def Let_def caller_store_def list_append_def
      slice_from_def alloc_def)

subsection \<open>\<open>match_events\<close>: the orientation of the returned pairs\<close>

text \<open>
  C2 fails on the code. With reference events \<open>[0, 5]\<close>, estimated events \<open>[5, 9]\<close> and
  window \<open>1\<close>, the only compatible pair is reference \<open>1\<close> with estimate \<open>0\<close>. The function
  returns the item \<open>(0, 1)\<close> of the dictionary from estimates to references; read as
  \<open>(ref_index, est_index)\<close>, as the docstring and the claim do, it pairs reference \<open>0\<close>
  with estimate \<open>1\<close>, which are \<open>9\<close> apart.
\<close>

theorem match_events_pair_outside_window:
  "match_events [0, 5 :: int] [5, 9] 1 = Some (Inr [(0, 1)]) \<and>
   hits [0, 5 :: int] [5, 9] 1 = [(1, 0)] \<and>
   \<not> \<bar>[0, 5 :: int] ! 0 - [5, 9] ! 1\<bar> \<le> 1"
  by code_simp

text \<open>
  C3 fails on the code. With reference events \<open>[1, 2, 3]\<close>, the single estimated event
  \<open>3\<close> and window \<open>0\<close>, reference \<open>2\<close> matches estimate \<open>0\<close>; the returned pair is
  \<open>(0, 2)\<close>, that is \<open>(est_index, ref_index)\<close>, not \<open>(ref_index, est_index) = (2, 0)\<close>.
\<close>

theorem match_events_pairs_swapped:
  "match_events [1, 2, 3 :: int] [3] 0 = Some (Inr [(0, 2)]) \<and>
   hits [1, 2, 3 :: int] [3] 0 = [(2, 0)] \<and>
   match_events [1, 2, 3 :: int] [3] 0 \<noteq> Some (Inr [(2, 0)])"
  by code_simp

subsection \<open>\<open>_bipartite_match\<close>: the augmenting search\<close>

lemma map_of_delete_le: "map_of (AList.delete k al) \<subseteq>\<^sub>m map_of al"
  by (simp add: map_le_def delete_conv')

lemma length_delete_less:
  "map_of al k \<noteq> None \<Longrightarrow> length (AList.delete k al) < length al"
proof (induction al)
  case Nil
  then show ?case by simp
next
  case (Cons p al)
  show ?case
  proof (cases "fst p = k")
    case True
    have "length (AList.delete k al) \<le> length al"
      by (rule length_delete_le)
    then show ?thesis using True by (cases p) simp
  next
    case False
    with Cons.prems have "map_of al k \<noteq> None" by (cases p) auto
    from Cons.IH [OF this] False show ?thesis by (cases p) simp
  qed
qed

lemma inj_on_map_upd:
  assumes "inj_on m (dom m)" and "u \<notin> ran m"
  shows "inj_on (m(v \<mapsto> u)) (dom (m(v \<mapsto> u)))"
proof (rule inj_onI)
  fix x y
  assume x: "x \<in> dom (m(v \<mapsto> u))" and y: "y \<in> dom (m(v \<mapsto> u))"
    and eq: "(m(v \<mapsto> u)) x = (m(v \<mapsto> u)) y"
  show "x = y"
  proof (cases "x = v")
    case True
    show ?thesis
    proof (rule ccontr)
      assume "x \<noteq> y"
      with True eq have "m y = Some u" by (simp split: if_splits)
      then have "u \<in> ran m" by (auto simp: ran_def)
      with assms(2) show False by simp
    qed
  next
    case False
    show ?thesis
    proof (cases "y = v")
      case True
      with False eq have "m x = Some u" by (simp split: if_splits)
      then have "u \<in> ran m" by (auto simp: ran_def)
      with assms(2) show ?thesis by simp
    next
      case yv: False
      with False eq x y have "m x = m y" "x \<in> dom m" "y \<in> dom m" by auto
      with assms(1) show ?thesis by (auto dest: inj_onD)
    qed
  qed
qed

lemma ran_map_upd_subset: "ran (m(v \<mapsto> u)) \<subseteq> insert u (ran m)"
  by (auto simp: ran_def split: if_splits)

lemma old_partner_free:
  assumes "inj_on m (dom m)" and "m v = Some u0" and "u \<noteq> u0"
  shows "u0 \<notin> ran (m(v \<mapsto> u))"
proof
  assume "u0 \<in> ran (m(v \<mapsto> u))"
  then obtain x where x: "(m(v \<mapsto> u)) x = Some u0" by (auto simp: ran_def)
  with assms(3) have xv: "x \<noteq> v" and mx: "m x = Some u0" by (auto split: if_splits)
  from mx assms(2) have "m x = m v" "x \<in> dom m" "v \<in> dom m" by auto
  with assms(1) have "x = v" by (auto dest: inj_onD)
  with xv show False by simp
qed

lemma search_inv_mono:
  assumes "search_inv E pred preds M"
    and "map_of pred' \<subseteq>\<^sub>m map_of pred" and "map_of preds' \<subseteq>\<^sub>m map_of preds"
  shows "search_inv E pred' preds' M"
proof -
  have p: "map_of pred u = Some x" if "map_of pred' u = Some x" for u x
    using assms(2) that by (auto simp: map_le_def dom_def)
  have q: "map_of preds v = Some L" if "map_of preds' v = Some L" for v L
    using assms(3) that by (auto simp: map_le_def dom_def)
  show ?thesis
    using assms(1) unfolding search_inv_def
    by (intro conjI allI impI) (blast dest: p q)+
qed

lemma search_inv_update:
  assumes inv: "search_inv E pred preds M"
    and e: "(u, v) \<in> E" and free: "u \<notin> ran (map_of M)"
    and nu: "map_of pred u = None"
    and nv: "\<forall>u'. map_of pred u' \<noteq> Some (Via v)"
  shows "search_inv E pred preds (AList.update v u M)"
proof -
  let ?m = "map_of M"
  have m': "map_of (AList.update v u M) = ?m(v \<mapsto> u)"
    by (rule update_conv')
  have j1: "distinct (map fst (AList.update v u M))"
    using inv by (simp add: search_inv_def distinct_update)
  have j2: "\<forall>v' u'. (?m(v \<mapsto> u)) v' = Some u' \<longrightarrow> (u', v') \<in> E"
    using inv e by (auto simp: search_inv_def)
  have j3: "inj_on (?m(v \<mapsto> u)) (dom (?m(v \<mapsto> u)))"
    using inv free by (intro inj_on_map_upd) (simp_all add: search_inv_def)
  have j4: "\<forall>u'. map_of pred u' = Some Unmatched \<longrightarrow> u' \<notin> ran (?m(v \<mapsto> u))"
  proof (intro allI impI)
    fix u' assume a: "map_of pred u' = Some Unmatched"
    with nu have "u' \<noteq> u" by auto
    moreover from inv a have "u' \<notin> ran ?m" by (simp add: search_inv_def)
    ultimately show "u' \<notin> ran (?m(v \<mapsto> u))"
      using ran_map_upd_subset [of ?m v u] by auto
  qed
  have j5: "\<forall>u' w. map_of pred u' = Some (Via w) \<longrightarrow> (?m(v \<mapsto> u)) w = Some u'"
  proof (intro allI impI)
    fix u' w assume a: "map_of pred u' = Some (Via w)"
    with nv have "w \<noteq> v" by auto
    moreover from inv a have "?m w = Some u'" by (simp add: search_inv_def)
    ultimately show "(?m(v \<mapsto> u)) w = Some u'" by simp
  qed
  have j6: "\<forall>v L u. map_of preds v = Some L \<longrightarrow> u \<in> set L \<longrightarrow> (u, v) \<in> E"
    using inv by (simp add: search_inv_def)
  show ?thesis
    unfolding search_inv_def m' using j1 j2 j3 j4 j5 j6 by blast
qed

lemma recurse_None:
  "recurse v None pred preds M =
     (case map_of preds v of
        None \<Rightarrow> Some (False, pred, preds, M)
      | Some L \<Rightarrow> recurse v (Some L) pred (AList.delete v preds) M)"
  by (subst recurse.simps) simp

lemma recurse_Nil: "recurse v (Some []) pred preds M = Some (False, pred, preds, M)"
  by (subst recurse.simps) simp

lemma recurse_Cons:
  "recurse v (Some (u # us)) pred preds M =
     (case map_of pred u of
        None \<Rightarrow> recurse v (Some us) pred preds M
      | Some pu \<Rightarrow>
          (case pu of
             Unmatched \<Rightarrow> Some (True, AList.delete u pred, preds, AList.update v u M)
           | Via w \<Rightarrow>
               Option.bind (recurse w None (AList.delete u pred) preds M)
                 (\<lambda>(found, pred', preds', M').
                    if found then Some (True, pred', preds', AList.update v u M')
                    else recurse v (Some us) pred' preds' M')))"
  by (subst recurse.simps) simp

lemma recurse_post_weaken:
  assumes "recurse_post E v pred' preds' M r"
    and "map_of pred' \<subseteq>\<^sub>m map_of pred" and "map_of preds' \<subseteq>\<^sub>m map_of preds"
    and "length preds' \<le> length preds"
  shows "recurse_post E v pred preds M r"
proof -
  obtain found pred'' preds'' M' where r: "r = (found, pred'', preds'', M')"
    by (cases r)
  have q: "map_of preds' x = None" if "map_of preds x = None" for x
    using assms(3) that by (auto simp: map_le_def dom_def)
  show ?thesis
    using assms unfolding recurse_post_def r
    by (auto intro: map_le_trans dest: q)
qed

lemma map_le_None: "m' \<subseteq>\<^sub>m m \<Longrightarrow> m x = None \<Longrightarrow> m' x = None"
  by (auto simp: map_le_def dom_def)

lemma map_le_Some: "m' \<subseteq>\<^sub>m m \<Longrightarrow> m' x = Some y \<Longrightarrow> m x = Some y"
  by (auto simp: map_le_def dom_def)

lemma recurse_loop_step:
  assumes entry: "\<And>w pred preds M.
      length preds \<le> n \<Longrightarrow> search_inv E pred preds M \<Longrightarrow>
      \<forall>u'. map_of pred u' \<noteq> Some (Via w) \<Longrightarrow>
      \<exists>r. recurse w None pred preds M = Some r \<and> recurse_post E w pred preds M r \<and>
          (fst r \<longrightarrow> map_of preds w \<noteq> None)"
  shows "length preds \<le> n \<Longrightarrow> search_inv E pred preds M \<Longrightarrow>
     \<forall>u'. map_of pred u' \<noteq> Some (Via v) \<Longrightarrow> map_of preds v = None \<Longrightarrow>
     \<forall>u\<in>set us. (u, v) \<in> E \<Longrightarrow>
     \<exists>r. recurse v (Some us) pred preds M = Some r \<and> recurse_post E v pred preds M r"
proof (induction us arbitrary: pred preds M)
  case Nil
  have "recurse_post E v pred preds M (False, pred, preds, M)"
    using Nil.prems(2) by (simp add: recurse_post_def)
  then show ?case by (simp add: recurse_Nil)
next
  case (Cons u us)
  note len = Cons.prems(1) and inv = Cons.prems(2) and nv = Cons.prems(3)
    and qv = Cons.prems(4)
  have e: "(u, v) \<in> E" and es: "\<forall>u\<in>set us. (u, v) \<in> E"
    using Cons.prems(5) by simp_all
  show ?case
  proof (cases "map_of pred u")
    case None
    from Cons.IH [OF len inv nv qv es] None show ?thesis
      by (simp add: recurse_Cons)
  next
    case (Some pu)
    let ?pred1 = "AList.delete u pred"
    have le1: "map_of ?pred1 \<subseteq>\<^sub>m map_of pred"
      by (rule map_of_delete_le)
    have inv1: "search_inv E ?pred1 preds M"
      by (rule search_inv_mono [OF inv le1 map_le_refl])
    have nu1: "map_of ?pred1 u = None"
      by (simp add: delete_conv')
    have nv1: "\<forall>u'. map_of ?pred1 u' \<noteq> Some (Via v)"
      using nv by (simp add: delete_conv')
    show ?thesis
    proof (cases pu)
      case Unmatched
      have free: "u \<notin> ran (map_of M)"
        using inv Some Unmatched by (simp add: search_inv_def)
      have inv2: "search_inv E ?pred1 preds (AList.update v u M)"
        by (rule search_inv_update [OF inv1 e free nu1 nv1])
      have inj: "inj_on (map_of M) (dom (map_of M))"
        using inv by (simp add: search_inv_def)
      have old: "\<forall>u0. map_of M v = Some u0 \<longrightarrow> u0 \<notin> ran (map_of (AList.update v u M))"
      proof (intro allI impI)
        fix u0 assume a: "map_of M v = Some u0"
        then have "u0 \<in> ran (map_of M)" by (auto simp: ran_def)
        with free have "u \<noteq> u0" by auto
        from old_partner_free [OF inj a this]
        show "u0 \<notin> ran (map_of (AList.update v u M))"
          by (simp add: update_conv')
      qed
      have "recurse_post E v pred preds M (True, ?pred1, preds, AList.update v u M)"
        unfolding recurse_post_def using inv2 le1 old by (simp add: update_conv')
      then show ?thesis using Some Unmatched by (simp add: recurse_Cons)
    next
      case (Via w)
      have mw: "map_of M w = Some u"
        using inv Some Via by (simp add: search_inv_def)
      have nw1: "\<forall>u'. map_of ?pred1 u' \<noteq> Some (Via w)"
      proof (intro allI notI)
        fix u' assume a: "map_of ?pred1 u' = Some (Via w)"
        then have "u' \<noteq> u" and "map_of pred u' = Some (Via w)"
          by (auto simp: delete_conv' split: if_splits)
        with inv have "map_of M w = Some u'" by (simp add: search_inv_def)
        with mw \<open>u' \<noteq> u\<close> show False by simp
      qed
      from entry [OF len inv1 nw1] obtain r1 where
        r1: "recurse w None ?pred1 preds M = Some r1" "recurse_post E w ?pred1 preds M r1"
          "fst r1 \<longrightarrow> map_of preds w \<noteq> None"
        by blast
      obtain found pred' preds' M' where r1eq: "r1 = (found, pred', preds', M')"
        by (cases r1)
      have p1: "search_inv E pred' preds' M'" "map_of pred' \<subseteq>\<^sub>m map_of ?pred1"
        "map_of preds' \<subseteq>\<^sub>m map_of preds" "length preds' \<le> length preds"
        "\<forall>x. x \<noteq> w \<longrightarrow> map_of preds x = None \<longrightarrow> map_of M' x = map_of M x"
        "\<not> found \<longrightarrow> M' = M"
        "found \<longrightarrow> dom (map_of M') = insert w (dom (map_of M)) \<and>
                   (\<forall>u0. map_of M w = Some u0 \<longrightarrow> u0 \<notin> ran (map_of M'))"
        using r1(2) unfolding recurse_post_def r1eq by simp_all
      have lep: "map_of pred' \<subseteq>\<^sub>m map_of pred"
        using p1(2) le1 by (rule map_le_trans)
      have nu': "map_of pred' u = None"
        by (rule map_le_None [OF p1(2) nu1])
      have nv': "\<forall>u'. map_of pred' u' \<noteq> Some (Via v)"
        using nv map_le_Some [OF lep] by blast
      have qv': "map_of preds' v = None"
        by (rule map_le_None [OF p1(3) qv])
      have step: "recurse v (Some (u # us)) pred preds M =
          (if found then Some (True, pred', preds', AList.update v u M')
           else recurse v (Some us) pred' preds' M')"
        using Some Via r1(1) r1eq by (simp add: recurse_Cons)
      show ?thesis
      proof (cases found)
        case True
        have wq: "map_of preds w \<noteq> None"
          using r1(3) r1eq True by simp
        have vw: "v \<noteq> w" using wq qv by auto
        have free: "u \<notin> ran (map_of M')"
          using p1(7) True mw by simp
        have inv2: "search_inv E pred' preds' (AList.update v u M')"
          by (rule search_inv_update [OF p1(1) e free nu' nv'])
        have mv: "map_of M' v = map_of M v"
          using p1(5) vw qv by simp
        have inj: "inj_on (map_of M') (dom (map_of M'))"
          using p1(1) by (simp add: search_inv_def)
        have frame: "\<forall>x. x \<noteq> v \<longrightarrow> map_of preds x = None \<longrightarrow>
            map_of (AList.update v u M') x = map_of M x"
        proof (intro allI impI)
          fix x assume a: "x \<noteq> v" "map_of preds x = None"
          with wq have "x \<noteq> w" by auto
          with p1(5) a show "map_of (AList.update v u M') x = map_of M x"
            by (simp add: update_conv')
        qed
        have "w \<in> dom (map_of M)" using mw by auto
        then have dom: "dom (map_of (AList.update v u M')) = insert v (dom (map_of M))"
          using p1(7) True by (auto simp: update_conv')
        have old: "\<forall>u0. map_of M v = Some u0 \<longrightarrow> u0 \<notin> ran (map_of (AList.update v u M'))"
        proof (intro allI impI)
          fix u0 assume a: "map_of M v = Some u0"
          then have a': "map_of M' v = Some u0" using mv by simp
          then have "u0 \<in> ran (map_of M')" by (auto simp: ran_def)
          with free have "u \<noteq> u0" by auto
          from old_partner_free [OF inj a' this]
          show "u0 \<notin> ran (map_of (AList.update v u M'))"
            by (simp add: update_conv')
        qed
        have "recurse_post E v pred preds M (True, pred', preds', AList.update v u M')"
          unfolding recurse_post_def using inv2 lep p1(3,4) frame dom old by simp
        then show ?thesis using step True by simp
      next
        case False
        then have MM: "M' = M" using p1(6) by simp
        have len': "length preds' \<le> n" using p1(4) len by simp
        from Cons.IH [OF len' p1(1) [unfolded MM] nv' qv' es] obtain r2 where
          r2: "recurse v (Some us) pred' preds' M = Some r2"
            "recurse_post E v pred' preds' M r2"
          by blast
        have "recurse_post E v pred preds M r2"
          by (rule recurse_post_weaken [OF r2(2) lep p1(3,4)])
        then show ?thesis using step False MM r2(1) by simp
      qed
    qed
  qed
qed

lemma recurse_entry_step:
  assumes loop: "\<And>us preds.
      length preds \<le> n \<Longrightarrow> search_inv E pred preds M \<Longrightarrow>
      map_of preds v = None \<Longrightarrow> \<forall>u\<in>set us. (u, v) \<in> E \<Longrightarrow>
      \<exists>r. recurse v (Some us) pred preds M = Some r \<and> recurse_post E v pred preds M r"
    and len: "length preds \<le> Suc n" and inv: "search_inv E pred preds M"
  shows "\<exists>r. recurse v None pred preds M = Some r \<and> recurse_post E v pred preds M r \<and>
          (fst r \<longrightarrow> map_of preds v \<noteq> None)"
proof (cases "map_of preds v")
  case None
  have "recurse_post E v pred preds M (False, pred, preds, M)"
    using inv by (simp add: recurse_post_def)
  then show ?thesis using None by (simp add: recurse_None)
next
  case (Some L)
  let ?preds1 = "AList.delete v preds"
  have le1: "map_of ?preds1 \<subseteq>\<^sub>m map_of preds"
    by (rule map_of_delete_le)
  have "length ?preds1 < length preds"
    using Some by (intro length_delete_less) simp
  with len have len1: "length ?preds1 \<le> n" and len2: "length ?preds1 \<le> length preds"
    by simp_all
  have inv1: "search_inv E pred ?preds1 M"
    by (rule search_inv_mono [OF inv map_le_refl le1])
  have qv: "map_of ?preds1 v = None"
    by (simp add: delete_conv')
  have es: "\<forall>u\<in>set L. (u, v) \<in> E"
    using inv Some by (auto simp: search_inv_def)
  from loop [OF len1 inv1 qv es] obtain r where
    r: "recurse v (Some L) pred ?preds1 M = Some r" "recurse_post E v pred ?preds1 M r"
    by blast
  have "recurse_post E v pred preds M r"
    by (rule recurse_post_weaken [OF r(2) map_le_refl le1 len2])
  then show ?thesis using Some r(1) by (simp add: recurse_None)
qed

lemma recurse_entry_bounded:
  "length preds \<le> n \<Longrightarrow> search_inv E pred preds M \<Longrightarrow>
   \<forall>u'. map_of pred u' \<noteq> Some (Via v) \<Longrightarrow>
   \<exists>r. recurse v None pred preds M = Some r \<and> recurse_post E v pred preds M r \<and>
       (fst r \<longrightarrow> map_of preds v \<noteq> None)"
proof (induction n arbitrary: v pred preds M)
  case 0
  then have "preds = []" by simp
  moreover have "recurse_post E v pred [] M (False, pred, [], M)"
    using "0.prems"(2) \<open>preds = []\<close> by (simp add: recurse_post_def)
  ultimately show ?case by (simp add: recurse_None)
next
  case (Suc n)
  show ?case
  proof (rule recurse_entry_step [OF _ Suc.prems(1,2)])
    fix us preds'
    assume a: "length preds' \<le> n" "search_inv E pred preds' M" "map_of preds' v = None"
      "\<forall>u\<in>set us. (u, v) \<in> E"
    show "\<exists>r. recurse v (Some us) pred preds' M = Some r \<and> recurse_post E v pred preds' M r"
      by (rule recurse_loop_step [OF Suc.IH a(1,2) Suc.prems(3) a(3,4)])
  qed
qed

lemma recurse_entry_spec:
  assumes "search_inv E pred preds M" and "\<forall>u'. map_of pred u' \<noteq> Some (Via v)"
  shows "\<exists>r. recurse v None pred preds M = Some r \<and> recurse_post E v pred preds M r \<and>
       (fst r \<longrightarrow> map_of preds v \<noteq> None)"
  by (rule recurse_entry_bounded [OF le_refl assms])

lemma layered_step:
  assumes lay: "layered ru rv n pred preds"
    and k: "k < n" and rv: "rv v = n" and ru: "ru u = n"
  shows "layered ru rv k (AList.delete u pred) (AList.delete v preds)"
  unfolding layered_def
proof (intro conjI allI impI)
  fix v' L assume a: "map_of (AList.delete v preds) v' = Some L" "rv v' \<le> k"
  then have q: "map_of preds v' = Some L"
    by (auto simp: delete_conv' split: if_splits)
  from a(2) k have le: "rv v' \<le> n" by simp
  from lay q le show "L \<noteq> []" unfolding layered_def by blast
  show "\<forall>u'\<in>set L. map_of (AList.delete u pred) u' \<noteq> None \<and> ru u' = rv v'"
  proof
    fix u' assume u': "u' \<in> set L"
    with lay q le have b: "map_of pred u' \<noteq> None" "ru u' = rv v'"
      unfolding layered_def by blast+
    with a(2) k ru have "u' \<noteq> u" by auto
    with b show "map_of (AList.delete u pred) u' \<noteq> None \<and> ru u' = rv v'"
      by (simp add: delete_conv')
  qed
next
  fix u' w assume a: "map_of (AList.delete u pred) u' = Some (Via w)" "ru u' \<le> k"
  then have p: "map_of pred u' = Some (Via w)"
    by (auto simp: delete_conv' split: if_splits)
  from a(2) k have le: "ru u' \<le> n" by simp
  from lay p le have b: "map_of preds w \<noteq> None" "rv w < ru u'"
    unfolding layered_def by blast+
  with a(2) k rv have "w \<noteq> v" by auto
  with b show "map_of (AList.delete v preds) w \<noteq> None" by (simp add: delete_conv')
  from b show "rv w < ru u'" by simp
qed

lemma recurse_succeeds:
  "layered ru rv (rv v) pred preds \<Longrightarrow> map_of preds v \<noteq> None \<Longrightarrow>
   \<exists>pred' preds' M'. recurse v None pred preds M = Some (True, pred', preds', M')"
proof (induction "rv v" arbitrary: v pred preds M rule: less_induct)
  case less
  from less.prems(2) obtain L where L: "map_of preds v = Some L" by auto
  with less.prems(1) have "L \<noteq> []" and Lu: "\<forall>u\<in>set L. map_of pred u \<noteq> None \<and> ru u = rv v"
    unfolding layered_def by blast+
  then obtain u us where Lc: "L = u # us" by (cases L) auto
  with Lu obtain pu where pu: "map_of pred u = Some pu" and ru: "ru u = rv v" by auto
  have start: "recurse v None pred preds M =
      recurse v (Some (u # us)) pred (AList.delete v preds) M"
    using L Lc by (simp add: recurse_None)
  show ?case
  proof (cases pu)
    case Unmatched
    then show ?thesis using start pu by (simp add: recurse_Cons)
  next
    case (Via w)
    with less.prems(1) pu ru have w: "map_of preds w \<noteq> None" "rv w < rv v"
      unfolding layered_def by fastforce+
    then have "w \<noteq> v" by auto
    with w(1) have qw: "map_of (AList.delete v preds) w \<noteq> None"
      by (simp add: delete_conv')
    have lay: "layered ru rv (rv w) (AList.delete u pred) (AList.delete v preds)"
      by (rule layered_step [OF less.prems(1) w(2) refl ru])
    from less.hyps [OF w(2) lay qw, of M] obtain pred' preds' M' where
      "recurse w None (AList.delete u pred) (AList.delete v preds) M
         = Some (True, pred', preds', M')"
      by blast
    then show ?thesis using start pu Via by (simp add: recurse_Cons)
  qed
qed

lemma recurse_all_spec:
  "search_inv E pred preds M \<Longrightarrow> \<forall>v\<in>set vs. \<forall>u'. map_of pred u' \<noteq> Some (Via v) \<Longrightarrow>
   \<exists>pred' preds' M'. recurse_all vs pred preds M = Some (pred', preds', M') \<and>
      search_inv E pred' preds' M' \<and> dom (map_of M) \<subseteq> dom (map_of M')"
proof (induction vs arbitrary: pred preds M)
  case Nil
  then show ?case by simp
next
  case (Cons v vs)
  from Cons.prems(2) have nv: "\<forall>u'. map_of pred u' \<noteq> Some (Via v)" by simp
  from recurse_entry_spec [OF Cons.prems(1) nv] obtain r where
    r: "recurse v None pred preds M = Some r" "recurse_post E v pred preds M r"
    by blast
  obtain found pred1 preds1 M1 where req: "r = (found, pred1, preds1, M1)"
    by (cases r)
  have p: "search_inv E pred1 preds1 M1" "map_of pred1 \<subseteq>\<^sub>m map_of pred"
    "\<not> found \<longrightarrow> M1 = M" "found \<longrightarrow> dom (map_of M1) = insert v (dom (map_of M))"
    using r(2) unfolding recurse_post_def req by simp_all
  have d1: "dom (map_of M) \<subseteq> dom (map_of M1)"
    using p(3,4) by (cases found) auto
  have nvs: "\<forall>v\<in>set vs. \<forall>u'. map_of pred1 u' \<noteq> Some (Via v)"
    using Cons.prems(2) map_le_Some [OF p(2)] by (metis list.set_intros(2))
  from Cons.IH [OF p(1) nvs] obtain pred' preds' M' where
    s: "recurse_all vs pred1 preds1 M1 = Some (pred', preds', M')"
      "search_inv E pred' preds' M'" "dom (map_of M1) \<subseteq> dom (map_of M')"
    by blast
  have "recurse_all (v # vs) pred preds M = Some (pred', preds', M')"
    using r(1) req s(1) by simp
  with s(2,3) d1 show ?case by blast
qed

lemma augment_phase:
  assumes inv: "search_inv E pred preds M"
    and nvs: "\<forall>v\<in>set (v # vs). \<forall>u'. map_of pred u' \<noteq> Some (Via v)"
    and lay: "layered ru rv (rv v) pred preds"
    and qv: "map_of preds v \<noteq> None" and mv: "map_of M v = None"
  shows "\<exists>pred' preds' M'. recurse_all (v # vs) pred preds M = Some (pred', preds', M') \<and>
      search_inv E pred' preds' M' \<and> dom (map_of M) \<subset> dom (map_of M')"
proof -
  from nvs have nv: "\<forall>u'. map_of pred u' \<noteq> Some (Via v)" by simp
  from recurse_entry_spec [OF inv nv] obtain r where
    r: "recurse v None pred preds M = Some r" "recurse_post E v pred preds M r"
    by blast
  from recurse_succeeds [OF lay qv, of M] r(1) obtain pred1 preds1 M1 where
    req: "r = (True, pred1, preds1, M1)"
    by auto
  have p: "search_inv E pred1 preds1 M1" "map_of pred1 \<subseteq>\<^sub>m map_of pred"
    "dom (map_of M1) = insert v (dom (map_of M))"
    using r(2) unfolding recurse_post_def req by simp_all
  have nvs1: "\<forall>v\<in>set vs. \<forall>u'. map_of pred1 u' \<noteq> Some (Via v)"
    using nvs map_le_Some [OF p(2)] by (metis list.set_intros(2))
  from recurse_all_spec [OF p(1) nvs1] obtain pred' preds' M' where
    s: "recurse_all vs pred1 preds1 M1 = Some (pred', preds', M')"
      "search_inv E pred' preds' M'" "dom (map_of M1) \<subseteq> dom (map_of M')"
    by blast
  have "recurse_all (v # vs) pred preds M = Some (pred', preds', M')"
    using r(1) req s(1) by simp
  moreover have "dom (map_of M) \<subset> dom (map_of M')"
  proof -
    have "v \<notin> dom (map_of M)" using mv by (simp add: domIff)
    moreover have "v \<in> dom (map_of M')" using p(3) s(3) by blast
    moreover have "dom (map_of M) \<subseteq> dom (map_of M')" using p(3) s(3) by blast
    ultimately show ?thesis by blast
  qed
  ultimately show ?thesis using s(2) by blast
qed

subsection \<open>\<open>_bipartite_match\<close>: the layering\<close>

lemma edges_ofI: "map_of g u = Some vs \<Longrightarrow> v \<in> set vs \<Longrightarrow> (u, v) \<in> edges_of g"
  by (auto simp: edges_of_def)

lemma edges_ofD: "(u, v) \<in> edges_of g \<Longrightarrow> \<exists>vs. map_of g u = Some vs \<and> v \<in> set vs"
  by (auto simp: edges_of_def)

lemma newLayer_ok_add:
  assumes ok: "newLayer_ok E preds S nl" and u: "u \<in> S" and e: "(u, v) \<in> E"
    and q: "map_of preds v = None"
  shows "newLayer_ok E preds S
           (case map_of nl v of
              None \<Rightarrow> AList.update v [u] nl
            | Some us \<Rightarrow> AList.update v (us @ [u]) nl)"
proof (cases "map_of nl v")
  case None
  have "newLayer_ok E preds S (AList.update v [u] nl)"
    using ok u e q unfolding newLayer_ok_def
    by (auto simp: update_conv' distinct_update split: if_splits)
  with None show ?thesis by simp
next
  case (Some us)
  with ok have "\<forall>u'\<in>set us. u' \<in> S \<and> (u', v) \<in> E"
    unfolding newLayer_ok_def by blast
  then have "newLayer_ok E preds S (AList.update v (us @ [u]) nl)"
    using ok u e q unfolding newLayer_ok_def
    by (auto simp: update_conv' distinct_update split: if_splits)
  with Some show ?thesis by simp
qed

lemma add_edges_ok:
  "newLayer_ok E preds S nl \<Longrightarrow> u \<in> S \<Longrightarrow> \<forall>v\<in>set vs. (u, v) \<in> E \<Longrightarrow>
   newLayer_ok E preds S (add_edges preds u vs nl)"
proof (induction vs arbitrary: nl)
  case Nil
  then show ?case by simp
next
  case (Cons v vs)
  from Cons.prems(3) have e: "(u, v) \<in> E" and es: "\<forall>v\<in>set vs. (u, v) \<in> E" by simp_all
  show ?case
  proof (cases "map_of preds v = None")
    case True
    from newLayer_ok_add [OF Cons.prems(1,2) e True]
    have "newLayer_ok E preds S
           (case map_of nl v of
              None \<Rightarrow> AList.update v [u] nl
            | Some us \<Rightarrow> AList.update v (us @ [u]) nl)" .
    from Cons.IH [OF this Cons.prems(2) es] True show ?thesis by simp
  next
    case False
    from Cons.IH [OF Cons.prems(1,2) es] False show ?thesis by auto
  qed
qed

lemma add_edges_dom:
  "dom (map_of (add_edges preds u vs nl))
     = dom (map_of nl) \<union> {v \<in> set vs. map_of preds v = None}"
proof (induction vs arbitrary: nl)
  case Nil
  then show ?case by simp
next
  case (Cons v vs)
  show ?case
  proof (cases "map_of preds v = None")
    case True
    have "dom (map_of (case map_of nl v of
              None \<Rightarrow> AList.update v [u] nl
            | Some us \<Rightarrow> AList.update v (us @ [u]) nl)) = insert v (dom (map_of nl))"
      by (cases "map_of nl v") (simp_all add: update_conv')
    with Cons.IH True show ?thesis by auto
  next
    case False
    with Cons.IH show ?thesis by auto
  qed
qed

lemma build_newLayer_spec:
  "\<forall>u\<in>set layer. map_of g u \<noteq> None \<Longrightarrow> set layer \<subseteq> S \<Longrightarrow>
   newLayer_ok (edges_of g) preds S nl \<Longrightarrow>
   \<exists>nl'. build_newLayer g preds layer nl = Inr nl' \<and>
     newLayer_ok (edges_of g) preds S nl' \<and>
     dom (map_of nl') = dom (map_of nl) \<union>
       {v. map_of preds v = None \<and> (\<exists>u\<in>set layer. (u, v) \<in> edges_of g)}"
proof (induction layer arbitrary: nl)
  case Nil
  then show ?case by simp
next
  case (Cons u us)
  from Cons.prems(1) obtain vs where vs: "map_of g u = Some vs" by auto
  have e: "\<forall>v\<in>set vs. (u, v) \<in> edges_of g"
    using vs by (auto intro: edges_ofI)
  have uS: "u \<in> S" and usS: "set us \<subseteq> S" using Cons.prems(2) by simp_all
  have ok1: "newLayer_ok (edges_of g) preds S (add_edges preds u vs nl)"
    by (rule add_edges_ok [OF Cons.prems(3) uS e])
  have keys: "\<forall>u\<in>set us. map_of g u \<noteq> None" using Cons.prems(1) by simp
  from Cons.IH [OF keys usS ok1] obtain nl' where
    r: "build_newLayer g preds us (add_edges preds u vs nl) = Inr nl'"
      "newLayer_ok (edges_of g) preds S nl'"
      "dom (map_of nl') = dom (map_of (add_edges preds u vs nl)) \<union>
         {v. map_of preds v = None \<and> (\<exists>u\<in>set us. (u, v) \<in> edges_of g)}"
    by blast
  have uv: "{v \<in> set vs. map_of preds v = None}
      = {v. map_of preds v = None \<and> (u, v) \<in> edges_of g}"
    using vs by (auto simp: edges_of_def)
  have "dom (map_of nl') = dom (map_of nl) \<union>
       {v. map_of preds v = None \<and> (\<exists>u\<in>set (u # us). (u, v) \<in> edges_of g)}"
    unfolding r(3) add_edges_dom uv by auto
  moreover have "build_newLayer g preds (u # us) nl = Inr nl'"
    using vs r(1) by simp
  ultimately show ?case using r(2) by blast
qed

lemma absorb_newLayer_spec:
  "distinct (map fst es) \<Longrightarrow> inj_on (map_of M) (dom (map_of M)) \<Longrightarrow>
   \<exists>pred' preds' layer' unmatched'.
     absorb_newLayer M es pred preds layer unmatched = (pred', preds', layer', unmatched') \<and>
     map_of preds' = map_of preds ++ map_of es \<and>
     (\<forall>u x. map_of pred' u = Some x \<longleftrightarrow>
        (\<exists>v\<in>dom (map_of es). map_of M v = Some u \<and> x = Via v) \<or>
        ((\<forall>v\<in>dom (map_of es). map_of M v \<noteq> Some u) \<and> map_of pred u = Some x)) \<and>
     set layer' = set layer \<union> {u. \<exists>v\<in>dom (map_of es). map_of M v = Some u} \<and>
     set unmatched' = set unmatched \<union> {v \<in> dom (map_of es). map_of M v = None}"
proof (induction es arbitrary: pred preds layer unmatched)
  case Nil
  then show ?case by simp
next
  case (Cons e es)
  obtain v us where e: "e = (v, us)" by (cases e)
  from Cons.prems(1) have dist: "distinct (map fst es)" and rv: "map_of es v = None"
    unfolding e by (simp_all add: map_of_eq_None_iff)
  then have vn: "v \<notin> dom (map_of es)" by (simp add: domIff)
  have K: "dom (map_of (e # es)) = insert v (dom (map_of es))"
    unfolding e by simp
  note inj = Cons.prems(2)
  have qeq: "map_of (AList.update v us preds) ++ map_of es = map_of preds ++ map_of (e # es)"
  proof (rule ext)
    fix x show "(map_of (AList.update v us preds) ++ map_of es) x
        = (map_of preds ++ map_of (e # es)) x"
      using rv unfolding e
      by (cases "x = v") (auto simp: update_conv' map_add_def split: option.splits)
  qed
  show ?case
  proof (cases "map_of M v")
    case None
    from Cons.IH [OF dist inj, of pred "AList.update v us preds" layer "unmatched @ [v]"]
    obtain pred' preds' layer' unmatched' where
      r: "absorb_newLayer M es pred (AList.update v us preds) layer (unmatched @ [v])
            = (pred', preds', layer', unmatched')"
        "map_of preds' = map_of (AList.update v us preds) ++ map_of es"
        "\<forall>u x. map_of pred' u = Some x \<longleftrightarrow>
          (\<exists>v\<in>dom (map_of es). map_of M v = Some u \<and> x = Via v) \<or>
          ((\<forall>v\<in>dom (map_of es). map_of M v \<noteq> Some u) \<and> map_of pred u = Some x)"
        "set layer' = set layer \<union> {u. \<exists>v\<in>dom (map_of es). map_of M v = Some u}"
        "set unmatched' = set (unmatched @ [v]) \<union> {v \<in> dom (map_of es). map_of M v = None}"
      by blast
    have c1: "absorb_newLayer M (e # es) pred preds layer unmatched
        = (pred', preds', layer', unmatched')"
      using r(1) None unfolding e by simp
    have c2: "map_of preds' = map_of preds ++ map_of (e # es)"
      using r(2) qeq by simp
    have c3: "\<forall>u x. map_of pred' u = Some x \<longleftrightarrow>
          (\<exists>v\<in>dom (map_of (e # es)). map_of M v = Some u \<and> x = Via v) \<or>
          ((\<forall>v\<in>dom (map_of (e # es)). map_of M v \<noteq> Some u) \<and> map_of pred u = Some x)"
      unfolding K using r(3) None by simp
    have c4: "set layer' = set layer \<union> {u. \<exists>v\<in>dom (map_of (e # es)). map_of M v = Some u}"
      unfolding K r(4) using None by auto
    have c5: "set unmatched' = set unmatched \<union> {v \<in> dom (map_of (e # es)). map_of M v = None}"
      unfolding K r(5) using None by auto
    from c1 c2 c3 c4 c5 show ?thesis by blast
  next
    case (Some u0)
    have uniq: "v' = v" if "map_of M v' = Some u0" for v'
    proof -
      from that Some have "map_of M v' = map_of M v" "v' \<in> dom (map_of M)" "v \<in> dom (map_of M)"
        by auto
      with inj show ?thesis by (auto dest: inj_onD)
    qed
    from Cons.IH [OF dist inj, of "AList.update u0 (Via v) pred" "AList.update v us preds"
        "layer @ [u0]" unmatched]
    obtain pred' preds' layer' unmatched' where
      r: "absorb_newLayer M es (AList.update u0 (Via v) pred) (AList.update v us preds)
            (layer @ [u0]) unmatched = (pred', preds', layer', unmatched')"
        "map_of preds' = map_of (AList.update v us preds) ++ map_of es"
        "\<forall>u x. map_of pred' u = Some x \<longleftrightarrow>
          (\<exists>v\<in>dom (map_of es). map_of M v = Some u \<and> x = Via v) \<or>
          ((\<forall>v\<in>dom (map_of es). map_of M v \<noteq> Some u) \<and>
           map_of (AList.update u0 (Via v) pred) u = Some x)"
        "set layer' = set (layer @ [u0]) \<union> {u. \<exists>v\<in>dom (map_of es). map_of M v = Some u}"
        "set unmatched' = set unmatched \<union> {v \<in> dom (map_of es). map_of M v = None}"
      by blast
    have c1: "absorb_newLayer M (e # es) pred preds layer unmatched
        = (pred', preds', layer', unmatched')"
      using r(1) Some unfolding e by simp
    have c2: "map_of preds' = map_of preds ++ map_of (e # es)"
      using r(2) qeq by simp
    have c3: "\<forall>u x. map_of pred' u = Some x \<longleftrightarrow>
          (\<exists>v\<in>dom (map_of (e # es)). map_of M v = Some u \<and> x = Via v) \<or>
          ((\<forall>v\<in>dom (map_of (e # es)). map_of M v \<noteq> Some u) \<and> map_of pred u = Some x)"
    proof (intro allI)
      fix u x
      show "map_of pred' u = Some x \<longleftrightarrow>
          (\<exists>v\<in>dom (map_of (e # es)). map_of M v = Some u \<and> x = Via v) \<or>
          ((\<forall>v\<in>dom (map_of (e # es)). map_of M v \<noteq> Some u) \<and> map_of pred u = Some x)"
      proof (cases "u = u0")
        case True
        have no: "\<forall>v'\<in>dom (map_of es). map_of M v' \<noteq> Some u0"
          using uniq vn by blast
        have "map_of pred' u0 = Some x \<longleftrightarrow>
            map_of (AList.update u0 (Via v) pred) u0 = Some x"
          using r(3) [THEN spec, of u0, THEN spec, of x] no by blast
        then have a: "map_of pred' u0 = Some x \<longleftrightarrow> x = Via v"
          by (auto simp: update_conv')
        have b: "(\<exists>v'\<in>dom (map_of (e # es)). map_of M v' = Some u0 \<and> x = Via v')
            \<longleftrightarrow> x = Via v"
          unfolding K using Some uniq by blast
        have c: "\<not> (\<forall>v'\<in>dom (map_of (e # es)). map_of M v' \<noteq> Some u0)"
          unfolding K using Some by blast
        show ?thesis unfolding True using a b c by blast
      next
        case False
        have a: "map_of (AList.update u0 (Via v) pred) u = map_of pred u"
          using False by (simp add: update_conv')
        have b: "map_of M v \<noteq> Some u" using Some False by simp
        show ?thesis
          unfolding K using r(3) [THEN spec, of u, THEN spec, of x] a b by auto
      qed
    qed
    have c4: "set layer' = set layer \<union> {u. \<exists>v\<in>dom (map_of (e # es)). map_of M v = Some u}"
      unfolding K r(4) using Some by auto
    have c5: "set unmatched' = set unmatched \<union> {v \<in> dom (map_of (e # es)). map_of M v = None}"
      unfolding K r(5) using Some by auto
    from c1 c2 c3 c4 c5 show ?thesis by blast
  qed
qed

lemma layering_iteration:
  assumes inv: "layer_inv g M ru rv k pred preds layer []"
  shows "\<exists>nl pred' preds' layer' unmatched' ru' rv'.
      build_newLayer g preds layer [] = Inr nl \<and>
      absorb_newLayer M nl pred preds [] [] = (pred', preds', layer', unmatched') \<and>
      layer_inv g M ru' rv' (Suc k) pred' preds' layer' unmatched' \<and>
      dom (map_of preds) \<subseteq> dom (map_of preds') \<and>
      (layer' \<noteq> [] \<longrightarrow> dom (map_of preds) \<noteq> dom (map_of preds'))"
proof -
  let ?E = "edges_of g"
  let ?P = "map_of pred" and ?Q = "map_of preds" and ?m = "map_of M"
  have sinv: "search_inv ?E pred preds M"
    and lay: "\<And>n. layered ru rv n pred preds"
    and k5: "\<forall>u\<in>set layer. ?P u \<noteq> None \<and> ru u = k"
    and k6: "\<forall>u. ?P u \<noteq> None \<longrightarrow>
        u \<in> set layer \<or> (\<forall>v. (u, v) \<in> ?E \<longrightarrow> ?Q v \<noteq> None)"
    and k9: "\<forall>v u. ?Q v \<noteq> None \<longrightarrow> ?m v = Some u \<longrightarrow> ?P u = Some (Via v)"
    and k9': "\<forall>v. ?Q v \<noteq> None \<longrightarrow> ?m v = None \<longrightarrow> v \<in> set []"
    and k10: "\<forall>u. map_of g u \<noteq> None \<longrightarrow> u \<notin> ran ?m \<longrightarrow> ?P u \<noteq> None"
    and k11: "\<forall>u. ?P u \<noteq> None \<longrightarrow> map_of g u \<noteq> None"
    and k12: "\<forall>v. ?Q v \<noteq> None \<longrightarrow> v \<in> snd ` ?E"
    using inv unfolding layer_inv_def by blast+
  have j2: "\<forall>v u. ?m v = Some u \<longrightarrow> (u, v) \<in> ?E"
    and inj: "inj_on ?m (dom ?m)"
    and j4: "\<forall>u. ?P u = Some Unmatched \<longrightarrow> u \<notin> ran ?m"
    and j5: "\<forall>u w. ?P u = Some (Via w) \<longrightarrow> ?m w = Some u"
    and j6: "\<forall>v L u. ?Q v = Some L \<longrightarrow> u \<in> set L \<longrightarrow> (u, v) \<in> ?E"
    using sinv unfolding search_inv_def by blast+
  have l1: "\<And>v L. ?Q v = Some L \<Longrightarrow> L \<noteq> [] \<and> (\<forall>u\<in>set L. ?P u \<noteq> None \<and> ru u = rv v)"
    using lay [of "rv v" for v] unfolding layered_def by blast
  have l2: "\<And>u w. ?P u = Some (Via w) \<Longrightarrow> ?Q w \<noteq> None \<and> rv w < ru u"
    using lay [of "ru u" for u] unfolding layered_def by blast
  have keys: "\<forall>u\<in>set layer. map_of g u \<noteq> None"
    using k5 k11 by blast
  have ok0: "newLayer_ok ?E preds (set layer) []"
    by (simp add: newLayer_ok_def)
  from build_newLayer_spec [OF keys subset_refl ok0] obtain nl where
    nl: "build_newLayer g preds layer [] = Inr nl" "newLayer_ok ?E preds (set layer) nl"
      "dom (map_of nl) = {v. ?Q v = None \<and> (\<exists>u\<in>set layer. (u, v) \<in> ?E)}"
    by (elim exE conjE) (rule that, simp_all)
  define N where "N = dom (map_of nl)"
  have N: "N = {v. ?Q v = None \<and> (\<exists>u\<in>set layer. (u, v) \<in> ?E)}"
    using nl(3) by (simp add: N_def)
  have dnl: "distinct (map fst nl)"
    and gnl: "\<And>v L. map_of nl v = Some L \<Longrightarrow>
        L \<noteq> [] \<and> (\<forall>u\<in>set L. u \<in> set layer \<and> (u, v) \<in> ?E)"
    using nl(2) unfolding newLayer_ok_def by blast+
  from absorb_newLayer_spec [OF dnl inj, of pred preds "[]" "[]"]
  obtain pred' preds' layer' unmatched' where
    ab0: "absorb_newLayer M nl pred preds [] [] = (pred', preds', layer', unmatched')"
      "map_of preds' = ?Q ++ map_of nl"
      "\<forall>u x. map_of pred' u = Some x \<longleftrightarrow>
          (\<exists>v\<in>dom (map_of nl). ?m v = Some u \<and> x = Via v) \<or>
          ((\<forall>v\<in>dom (map_of nl). ?m v \<noteq> Some u) \<and> ?P u = Some x)"
      "set layer' = set [] \<union> {u. \<exists>v\<in>dom (map_of nl). ?m v = Some u}"
      "set unmatched' = set [] \<union> {v \<in> dom (map_of nl). ?m v = None}"
    by (elim exE conjE) (rule that, assumption+)
  note ab = ab0 [folded N_def]
  let ?P' = "map_of pred'" and ?Q' = "map_of preds'"
  define ru' where "ru' = (\<lambda>u. if ?P u \<noteq> None then ru u else Suc k)"
  define rv' where "rv' = (\<lambda>v. if ?Q v \<noteq> None then rv v else k)"
  have NQ: "?Q v = None" if "v \<in> N" for v
    using that N by simp
  have Qold: "?Q' v = Some L" if "?Q v = Some L" for v L
  proof -
    have "v \<notin> N" using that NQ by auto
    then have "map_of nl v = None" by (simp add: N_def domIff)
    with that show ?thesis by (simp add: ab(2) map_add_def)
  qed
  have Qnew: "?Q' v = map_of nl v" if "v \<in> N" for v
    using that by (auto simp: ab(2) map_add_def N_def split: option.splits)
  have Qcases: "?Q v = Some L \<or> (v \<in> N \<and> map_of nl v = Some L)" if "?Q' v = Some L" for v L
    using that by (auto simp: ab(2) map_add_def N_def split: option.splits)
  have Qdom: "?Q' v \<noteq> None \<longleftrightarrow> ?Q v \<noteq> None \<or> v \<in> N" for v
    by (auto simp: ab(2) N_def domIff)
  have F: "?m v \<noteq> Some u" if "?P u \<noteq> None" "v \<in> N" for u v
  proof
    assume mv: "?m v = Some u"
    from that(1) obtain x where x: "?P u = Some x" by auto
    show False
    proof (cases x)
      case Unmatched
      with x j4 have "u \<notin> ran ?m" by blast
      with mv show False by (auto simp: ran_def)
    next
      case (Via w)
      with x j5 have mw: "?m w = Some u" by blast
      with mv have "?m w = ?m v" "w \<in> dom ?m" "v \<in> dom ?m" by auto
      with inj have "w = v" by (auto dest: inj_onD)
      with l2 [of u w] x Via have "?Q v \<noteq> None" by simp
      with NQ [OF that(2)] show False by simp
    qed
  qed
  have Pold: "?P' u = Some x" if "?P u = Some x" for u x
    using ab(3) [THEN spec, of u, THEN spec, of x] that F [of u] by blast
  have Pnew: "?P' u = Some (Via v)" if "v \<in> N" "?m v = Some u" for u v
    using ab(3) [THEN spec, of u, THEN spec, of "Via v"] that by blast
  have Pcases: "?P u = Some x \<or> (?P u = None \<and> (\<exists>v\<in>N. ?m v = Some u \<and> x = Via v))"
    if "?P' u = Some x" for u x
  proof (cases "?P u")
    case None
    with ab(3) [THEN spec, of u, THEN spec, of x] that show ?thesis by auto
  next
    case (Some y)
    from Pold [OF Some] that have "y = x" by simp
    with Some show ?thesis by simp
  qed
  have c1: "search_inv ?E pred' preds' M"
    unfolding search_inv_def
  proof (intro conjI allI impI)
    show "distinct (map fst M)" using sinv by (simp add: search_inv_def)
    show "inj_on ?m (dom ?m)" by (rule inj)
    fix v u assume "?m v = Some u" then show "(u, v) \<in> ?E" using j2 by blast
  next
    fix u assume "?P' u = Some Unmatched"
    from Pcases [OF this] have "?P u = Some Unmatched" by auto
    with j4 show "u \<notin> ran ?m" by blast
  next
    fix u w assume "?P' u = Some (Via w)"
    from Pcases [OF this] j5 show "?m w = Some u" by auto
  next
    fix v L u assume a: "?Q' v = Some L" "u \<in> set L"
    from Qcases [OF a(1)] show "(u, v) \<in> ?E"
    proof
      assume "?Q v = Some L" with j6 a(2) show ?thesis by blast
    next
      assume "v \<in> N \<and> map_of nl v = Some L"
      with gnl [of v L] a(2) show ?thesis by blast
    qed
  qed
  have c2: "layered ru' rv' n pred' preds'" for n
    unfolding layered_def
  proof (intro conjI allI impI)
    fix v L assume a: "?Q' v = Some L"
    from Qcases [OF a] show "L \<noteq> []"
      using l1 [of v L] gnl [of v L] by blast
    show "\<forall>u\<in>set L. ?P' u \<noteq> None \<and> ru' u = rv' v"
    proof
      fix u assume u: "u \<in> set L"
      from Qcases [OF a] show "?P' u \<noteq> None \<and> ru' u = rv' v"
      proof
        assume q: "?Q v = Some L"
        with l1 [of v L] u have p: "?P u \<noteq> None" "ru u = rv v" by blast+
        then obtain x where "?P u = Some x" by auto
        from Pold [OF this] p q show ?thesis by (simp add: ru'_def rv'_def)
      next
        assume q: "v \<in> N \<and> map_of nl v = Some L"
        with gnl [of v L] u have "u \<in> set layer" by blast
        with k5 have p: "?P u \<noteq> None" "ru u = k" by blast+
        then obtain x where "?P u = Some x" by auto
        from Pold [OF this] p q NQ [of v] show ?thesis by (simp add: ru'_def rv'_def)
      qed
    qed
  next
    fix u w assume a: "?P' u = Some (Via w)"
    from Pcases [OF a] have
      "?P u = Some (Via w) \<or> (?P u = None \<and> w \<in> N \<and> ?m w = Some u)" by auto
    then show "?Q' w \<noteq> None"
      using l2 [of u w] Qdom [of w] by blast
    from \<open>?P u = Some (Via w) \<or> (?P u = None \<and> w \<in> N \<and> ?m w = Some u)\<close>
    show "rv' w < ru' u"
    proof
      assume p: "?P u = Some (Via w)"
      with l2 [of u w] show ?thesis by (simp add: ru'_def rv'_def)
    next
      assume "?P u = None \<and> w \<in> N \<and> ?m w = Some u"
      with NQ [of w] show ?thesis by (simp add: ru'_def rv'_def)
    qed
  qed
  have lay': "set layer' = {u. \<exists>v\<in>N. ?m v = Some u}"
    using ab(4) by simp
  have unm': "set unmatched' = {v \<in> N. ?m v = None}"
    using ab(5) by simp
  have c3: "\<forall>u\<in>set layer'. ?P' u \<noteq> None \<and> ru' u = Suc k"
  proof
    fix u assume "u \<in> set layer'"
    then obtain v where v: "v \<in> N" "?m v = Some u" unfolding lay' by blast
    from Pnew [OF v] have "?P' u \<noteq> None" by simp
    moreover have "?P u = None" using F [of u v] v by blast
    ultimately show "?P' u \<noteq> None \<and> ru' u = Suc k" by (simp add: ru'_def)
  qed
  have c4: "\<forall>u. ?P' u \<noteq> None \<longrightarrow>
        u \<in> set layer' \<or> (\<forall>v. (u, v) \<in> ?E \<longrightarrow> ?Q' v \<noteq> None)"
  proof (intro allI impI)
    fix u assume "?P' u \<noteq> None"
    then obtain x where x: "?P' u = Some x" by auto
    from Pcases [OF x] show "u \<in> set layer' \<or> (\<forall>v. (u, v) \<in> ?E \<longrightarrow> ?Q' v \<noteq> None)"
    proof
      assume p: "?P u = Some x"
      have "\<forall>v. (u, v) \<in> ?E \<longrightarrow> ?Q' v \<noteq> None"
      proof (intro allI impI)
        fix v assume e: "(u, v) \<in> ?E"
        show "?Q' v \<noteq> None"
        proof (cases "?Q v = None")
          case True
          have "?P u \<noteq> None" using p by simp
          with k6 [THEN spec, of u] True e have "u \<in> set layer" by blast
          with True e have "v \<in> N" unfolding N by blast
          then show ?thesis using Qdom by blast
        next
          case False
          then show ?thesis using Qdom by blast
        qed
      qed
      then show ?thesis by blast
    next
      assume "?P u = None \<and> (\<exists>v\<in>N. ?m v = Some u \<and> x = Via v)"
      then show ?thesis unfolding lay' by blast
    qed
  qed
  have c5: "\<forall>v u. ?Q' v \<noteq> None \<longrightarrow> ?m v = Some u \<longrightarrow> ?P' u = Some (Via v)"
  proof (intro allI impI)
    fix v u assume a: "?Q' v \<noteq> None" "?m v = Some u"
    show "?P' u = Some (Via v)"
    proof (cases "v \<in> N")
      case True
      from Pnew [OF True a(2)] show ?thesis .
    next
      case False
      with a(1) Qdom have "?Q v \<noteq> None" by blast
      with k9 a(2) have "?P u = Some (Via v)" by blast
      from Pold [OF this] show ?thesis .
    qed
  qed
  have c6: "\<forall>v. ?Q' v \<noteq> None \<longrightarrow> ?m v = None \<longrightarrow> v \<in> set unmatched'"
  proof (intro allI impI)
    fix v assume a: "?Q' v \<noteq> None" "?m v = None"
    have "v \<in> N"
    proof (rule ccontr)
      assume "v \<notin> N"
      with a(1) Qdom have "?Q v \<noteq> None" by blast
      with k9' a(2) show False by auto
    qed
    with a(2) show "v \<in> set unmatched'" unfolding unm' by blast
  qed
  have c7: "\<forall>v\<in>set unmatched'. ?Q' v \<noteq> None \<and> ?m v = None"
    unfolding unm' using Qdom by blast
  have c8: "\<forall>u. map_of g u \<noteq> None \<longrightarrow> u \<notin> ran ?m \<longrightarrow> ?P' u \<noteq> None"
  proof (intro allI impI)
    fix u assume "map_of g u \<noteq> None" "u \<notin> ran ?m"
    with k10 obtain x where "?P u = Some x" by auto
    from Pold [OF this] show "?P' u \<noteq> None" by simp
  qed
  have c9: "\<forall>u. ?P' u \<noteq> None \<longrightarrow> map_of g u \<noteq> None"
  proof (intro allI impI)
    fix u assume "?P' u \<noteq> None"
    then obtain x where x: "?P' u = Some x" by auto
    from Pcases [OF x] show "map_of g u \<noteq> None"
    proof
      assume "?P u = Some x" with k11 show ?thesis by auto
    next
      assume "?P u = None \<and> (\<exists>v\<in>N. ?m v = Some u \<and> x = Via v)"
      then obtain v where "?m v = Some u" by blast
      with j2 have "(u, v) \<in> ?E" by blast
      then show ?thesis by (auto dest: edges_ofD)
    qed
  qed
  have c10: "\<forall>v. ?Q' v \<noteq> None \<longrightarrow> v \<in> snd ` ?E"
  proof (intro allI impI)
    fix v assume "?Q' v \<noteq> None"
    with Qdom have "?Q v \<noteq> None \<or> v \<in> N" by blast
    then show "v \<in> snd ` ?E"
    proof
      assume "?Q v \<noteq> None" with k12 show ?thesis by blast
    next
      assume "v \<in> N"
      then obtain u where "(u, v) \<in> ?E" unfolding N by blast
      then show ?thesis by force
    qed
  qed
  have inv': "layer_inv g M ru' rv' (Suc k) pred' preds' layer' unmatched'"
    unfolding layer_inv_def using c1 c2 c3 c4 c5 c6 c7 c8 c9 c10 by blast
  have sub: "dom ?Q \<subseteq> dom ?Q'"
    using Qdom by (auto simp: domIff)
  have grow: "layer' \<noteq> [] \<longrightarrow> dom ?Q \<noteq> dom ?Q'"
  proof
    assume "layer' \<noteq> []"
    then obtain u where "u \<in> set layer'" by (cases layer') auto
    then obtain v where v: "v \<in> N" unfolding lay' by blast
    then have "v \<in> dom ?Q'" using Qdom [of v] by (simp add: domIff)
    moreover have "v \<notin> dom ?Q" using NQ [OF v] by (simp add: domIff)
    ultimately show "dom ?Q \<noteq> dom ?Q'" by blast
  qed
  from nl(1) ab(1) inv' sub grow show ?thesis by blast
qed

lemma finite_edges_of: "finite (edges_of g)"
proof -
  have "edges_of g \<subseteq> fst ` set g \<times> \<Union> (set ` snd ` set g)"
  proof
    fix e assume "e \<in> edges_of g"
    then obtain u v vs where e: "e = (u, v)" "map_of g u = Some vs" "v \<in> set vs"
      by (auto simp: edges_of_def)
    from e(2) have "(u, vs) \<in> set g" by (rule map_of_SomeD)
    with e(1,3) show "e \<in> fst ` set g \<times> \<Union> (set ` snd ` set g)" by force
  qed
  moreover have "finite (fst ` set g \<times> \<Union> (set ` snd ` set g))" by simp
  ultimately show ?thesis by (rule finite_subset)
qed

lemma layering_exit:
  "layer = [] \<or> unmatched \<noteq> [] \<Longrightarrow>
   layering g M pred preds layer unmatched = Some (Inr (pred, preds, unmatched))"
  by (subst layering.simps) auto

lemma layering_unfold:
  "layer \<noteq> [] \<Longrightarrow> build_newLayer g preds layer [] = Inr nl \<Longrightarrow>
   absorb_newLayer M nl pred preds [] [] = (pred', preds', layer', unmatched') \<Longrightarrow>
   layering g M pred preds layer [] = layering g M pred' preds' layer' unmatched'"
  by (subst layering.simps) simp

lemma layering_spec:
  "layer_inv g M ru rv k pred preds layer unmatched \<Longrightarrow>
   \<exists>pred' preds' unmatched' ru' rv' k' layer'.
     layering g M pred preds layer unmatched = Some (Inr (pred', preds', unmatched')) \<and>
     layer_inv g M ru' rv' k' pred' preds' layer' unmatched' \<and>
     (unmatched' = [] \<longrightarrow> layer' = [])"
proof (induction "card (snd ` edges_of g - dom (map_of preds))"
    arbitrary: ru rv k pred preds layer unmatched rule: less_induct)
  case less
  show ?case
  proof (cases "layer = [] \<or> unmatched \<noteq> []")
    case True
    from layering_exit [OF True] less.prems True show ?thesis by blast
  next
    case False
    then have ne: "layer \<noteq> []" and un: "unmatched = []" by simp_all
    from layering_iteration [OF less.prems [unfolded un]]
    obtain nl pred1 preds1 layer1 unmatched1 ru1 rv1 where
      it: "build_newLayer g preds layer [] = Inr nl"
        "absorb_newLayer M nl pred preds [] [] = (pred1, preds1, layer1, unmatched1)"
        "layer_inv g M ru1 rv1 (Suc k) pred1 preds1 layer1 unmatched1"
        "dom (map_of preds) \<subseteq> dom (map_of preds1)"
        "layer1 \<noteq> [] \<longrightarrow> dom (map_of preds) \<noteq> dom (map_of preds1)"
      by blast
    have eq: "layering g M pred preds layer unmatched
        = layering g M pred1 preds1 layer1 unmatched1"
      unfolding un by (rule layering_unfold [OF ne it(1,2)])
    show ?thesis
    proof (cases "layer1 = []")
      case True
      then have "layering g M pred1 preds1 layer1 unmatched1
          = Some (Inr (pred1, preds1, unmatched1))"
        by (intro layering_exit) simp
      with eq it(3) True show ?thesis by auto
    next
      case nonempty: False
      let ?V = "snd ` edges_of g"
      have fin: "finite (?V - dom (map_of preds))"
        using finite_edges_of by simp
      have sub1: "dom (map_of preds1) \<subseteq> ?V"
        using it(3) unfolding layer_inv_def by (auto simp: domIff)
      from it(4,5) nonempty obtain v where
        v: "v \<in> dom (map_of preds1)" "v \<notin> dom (map_of preds)"
        by blast
      have "?V - dom (map_of preds1) \<subset> ?V - dom (map_of preds)"
        using it(4) v sub1 by blast
      with fin have "card (?V - dom (map_of preds1)) < card (?V - dom (map_of preds))"
        by (rule psubset_card_mono)
      from less.hyps [OF this it(3)] eq show ?thesis by simp
    qed
  qed
qed

subsection \<open>\<open>_bipartite_match\<close>: the start of a phase and the greedy matching\<close>

lemma matching_distinct_snd:
  assumes "distinct (map fst M)" and "inj_on (map_of M) (dom (map_of M))"
  shows "distinct (map snd M)"
proof -
  have "distinct M" using assms(1) by (simp add: distinct_map)
  moreover have "inj_on snd (set M)"
  proof (rule inj_onI)
    fix p q assume p: "p \<in> set M" and q: "q \<in> set M" and eq: "snd p = snd q"
    obtain v u where pe: "p = (v, u)" by (cases p)
    obtain v' u' where qe: "q = (v', u')" by (cases q)
    from p q assms(1) have "map_of M v = Some u" "map_of M v' = Some u'"
      unfolding pe qe by simp_all
    with eq have "map_of M v = map_of M v'" "v \<in> dom (map_of M)" "v' \<in> dom (map_of M)"
      unfolding pe qe by auto
    with assms(2) have "v = v'" by (auto dest: inj_onD)
    with eq show "p = q" unfolding pe qe by simp
  qed
  ultimately show ?thesis by (simp add: distinct_map)
qed

lemma delete_matched_spec:
  "distinct (map snd es) \<Longrightarrow> \<forall>u\<in>snd ` set es. map_of pred u \<noteq> None \<Longrightarrow>
   \<exists>pred'. delete_matched es pred = Inr pred' \<and>
     (\<forall>u. map_of pred' u = (if u \<in> snd ` set es then None else map_of pred u))"
proof (induction es arbitrary: pred)
  case Nil
  then show ?case by simp
next
  case (Cons e es)
  obtain v u where e: "e = (v, u)" by (cases e)
  from Cons.prems(1) have dist: "distinct (map snd es)" and un: "u \<notin> snd ` set es"
    unfolding e by simp_all
  from Cons.prems(2) have pu: "map_of pred u \<noteq> None" unfolding e by simp
  have rest: "\<forall>u'\<in>snd ` set es. map_of (AList.delete u pred) u' \<noteq> None"
  proof
    fix u' assume a: "u' \<in> snd ` set es"
    with un have "u' \<noteq> u" by auto
    moreover from a Cons.prems(2) have "map_of pred u' \<noteq> None" unfolding e by auto
    ultimately show "map_of (AList.delete u pred) u' \<noteq> None" by (simp add: delete_conv')
  qed
  from Cons.IH [OF dist rest] obtain pred' where
    r: "delete_matched es (AList.delete u pred) = Inr pred'"
      "\<forall>u'. map_of pred' u' = (if u' \<in> snd ` set es then None
                                 else map_of (AList.delete u pred) u')"
    by blast
  have "delete_matched (e # es) pred = Inr pred'"
    using pu r(1) unfolding e by auto
  moreover have "\<forall>u'. map_of pred' u' = (if u' \<in> snd ` set (e # es) then None
                                 else map_of pred u')"
    using r(2) unfolding e by (auto simp: delete_conv')
  ultimately show ?case by blast
qed

lemma initial_layer_inv:
  assumes valid: "search_inv (edges_of g) [] [] M"
  shows "\<exists>pred. initial_pred g M = Inr pred \<and>
           layer_inv g M (\<lambda>_. 0) (\<lambda>_. 0) 0 pred [] (map fst pred) []"
proof -
  let ?E = "edges_of g" and ?m = "map_of M"
  let ?pred0 = "map (\<lambda>(u, vs). (u, Unmatched)) g"
  have dM: "distinct (map fst M)" and inj: "inj_on ?m (dom ?m)"
    and j2: "\<forall>v u. ?m v = Some u \<longrightarrow> (u, v) \<in> ?E"
    using valid unfolding search_inv_def by blast+
  have p0: "map_of ?pred0 u = (if map_of g u \<noteq> None then Some Unmatched else None)" for u
    by (auto simp: map_of_map map_option_case split: option.splits)
  have ran: "ran ?m = snd ` set M"
    using dM by (rule ran_distinct)
  have keys: "\<forall>u\<in>snd ` set M. map_of ?pred0 u \<noteq> None"
  proof
    fix u assume "u \<in> snd ` set M"
    then obtain v where "?m v = Some u" unfolding ran [symmetric] by (auto simp: ran_def)
    with j2 have "(u, v) \<in> ?E" by blast
    then have "map_of g u \<noteq> None" by (auto dest: edges_ofD)
    then show "map_of ?pred0 u \<noteq> None" unfolding p0 by simp
  qed
  from delete_matched_spec [OF matching_distinct_snd [OF dM inj] keys] obtain pred where
    pred: "delete_matched M ?pred0 = Inr pred"
      "\<forall>u. map_of pred u = (if u \<in> snd ` set M then None else map_of ?pred0 u)"
    by blast
  have P: "map_of pred u =
      (if u \<in> ran ?m \<or> map_of g u = None then None else Some Unmatched)" for u
    using pred(2) [THEN spec, of u] unfolding p0 ran by auto
  have ip: "initial_pred g M = Inr pred"
    using pred(1) by (simp add: initial_pred_def)
  have c1: "search_inv ?E pred [] M"
    using dM inj j2 unfolding search_inv_def by (auto simp: P)
  have c2: "layered (\<lambda>_. 0) (\<lambda>_. 0) n pred []" for n
    unfolding layered_def by (auto simp: P)
  have c3: "\<forall>u\<in>set (map fst pred). map_of pred u \<noteq> None \<and> (0::nat) = 0"
    by (auto simp: map_of_eq_None_iff)
  have c4: "\<forall>u. map_of pred u \<noteq> None \<longrightarrow> u \<in> set (map fst pred)"
    by (auto simp: map_of_eq_None_iff)
  have c8: "\<forall>u. map_of g u \<noteq> None \<longrightarrow> u \<notin> ran ?m \<longrightarrow> map_of pred u \<noteq> None"
    by (auto simp: P)
  have c9: "\<forall>u. map_of pred u \<noteq> None \<longrightarrow> map_of g u \<noteq> None"
    by (auto simp: P)
  have "layer_inv g M (\<lambda>_. 0) (\<lambda>_. 0) 0 pred [] (map fst pred) []"
    unfolding layer_inv_def using c1 c2 c3 c4 c8 c9 by simp
  with ip show ?thesis by blast
qed

lemma greedy_scan_spec:
  "search_inv E [] [] M \<Longrightarrow> u \<notin> ran (map_of M) \<Longrightarrow> \<forall>v\<in>set vs. (u, v) \<in> E \<Longrightarrow>
   search_inv E [] [] (greedy_scan u vs M) \<and>
   ran (map_of (greedy_scan u vs M)) \<subseteq> insert u (ran (map_of M))"
proof (induction vs)
  case Nil
  then show ?case by auto
next
  case (Cons v vs)
  show ?case
  proof (cases "map_of M v = None")
    case True
    from Cons.prems(3) have e: "(u, v) \<in> E" by simp
    have "search_inv E [] [] (AList.update v u M)"
      by (rule search_inv_update [OF Cons.prems(1) e Cons.prems(2)]) simp_all
    moreover have "ran (map_of (AList.update v u M)) \<subseteq> insert u (ran (map_of M))"
      unfolding update_conv' by (rule ran_map_upd_subset)
    ultimately show ?thesis using True by simp
  next
    case False
    from Cons.prems(3) have "\<forall>v\<in>set vs. (u, v) \<in> E" by simp
    from Cons.IH [OF Cons.prems(1,2) this] False show ?thesis by auto
  qed
qed

lemma greedy_fold_valid:
  "distinct (map fst es) \<Longrightarrow> \<forall>(u, vs)\<in>set es. \<forall>v\<in>set vs. (u, v) \<in> E \<Longrightarrow>
   search_inv E [] [] M \<Longrightarrow> ran (map_of M) \<inter> fst ` set es = {} \<Longrightarrow>
   search_inv E [] [] (fold (\<lambda>(u, vs) matching. greedy_scan u vs matching) es M)"
proof (induction es arbitrary: M)
  case Nil
  then show ?case by simp
next
  case (Cons e es)
  obtain u vs where e: "e = (u, vs)" by (cases e)
  from Cons.prems(1) have dist: "distinct (map fst es)" and un: "u \<notin> fst ` set es"
    unfolding e by simp_all
  from Cons.prems(2) have ev: "\<forall>v\<in>set vs. (u, v) \<in> E"
    and es: "\<forall>(u, vs)\<in>set es. \<forall>v\<in>set vs. (u, v) \<in> E"
    unfolding e by simp_all
  from Cons.prems(4) have free: "u \<notin> ran (map_of M)" unfolding e by auto
  from greedy_scan_spec [OF Cons.prems(3) free ev] have
    s: "search_inv E [] [] (greedy_scan u vs M)"
      "ran (map_of (greedy_scan u vs M)) \<subseteq> insert u (ran (map_of M))"
    by blast+
  have disj: "ran (map_of (greedy_scan u vs M)) \<inter> fst ` set es = {}"
    using s(2) un Cons.prems(4) unfolding e by auto
  from Cons.IH [OF dist es s(1) disj] show ?case unfolding e by simp
qed

lemma greedy_matching_valid:
  assumes "distinct (map fst g)"
  shows "search_inv (edges_of g) [] [] (greedy_matching g)"
proof -
  have e: "\<forall>(u, vs)\<in>set g. \<forall>v\<in>set vs. (u, v) \<in> edges_of g"
    using assms by (auto intro: edges_ofI)
  have v0: "search_inv (edges_of g) [] [] []"
    by (simp add: search_inv_def)
  from greedy_fold_valid [OF assms e v0] show ?thesis
    by (simp add: greedy_matching_def)
qed

subsection \<open>\<open>_bipartite_match\<close>: the result is a maximum matching\<close>

text \<open>
  When the layering ends without an unmatched vertex, the vertices of \<open>preds\<close> together
  with the left vertices outside \<open>pred\<close> cover every edge, and there are no more of them
  than matched pairs: no matching can be larger.
\<close>

lemma cover_maximum:
  fixes m :: "nat \<rightharpoonup> nat" and P :: "nat \<rightharpoonup> 'p" and Q :: "nat \<rightharpoonup> 'q"
  assumes fin: "finite (dom m)"
    and a: "\<forall>u. P u \<noteq> None \<longrightarrow> (\<forall>v. (u, v) \<in> E \<longrightarrow> Q v \<noteq> None)"
    and b: "\<forall>v. Q v \<noteq> None \<longrightarrow> (\<exists>u. m v = Some u \<and> P u \<noteq> None)"
    and c: "\<forall>u v. (u, v) \<in> E \<longrightarrow> u \<notin> ran m \<longrightarrow> P u \<noteq> None"
    and X: "is_matching E X"
  shows "card X \<le> card (dom m)"
proof -
  define s where "s = (\<lambda>u. SOME v'. m v' = Some u)"
  define f where "f = (\<lambda>(u, v). if P u \<noteq> None then v else s u)"
  have XE: "X \<subseteq> E" and i1: "inj_on fst X" and i2: "inj_on snd X"
    using X unfolding is_matching_def by blast+
  have partner: "m (s u) = Some u" if "(u, v) \<in> X" "P u = None" for u v
  proof -
    from that(1) XE have "(u, v) \<in> E" by blast
    with c that(2) have "u \<in> ran m" by blast
    then have "\<exists>v'. m v' = Some u" by (auto simp: ran_def)
    then show ?thesis unfolding s_def by (rule someI_ex)
  qed
  have img: "f ` X \<subseteq> dom m"
  proof
    fix y assume "y \<in> f ` X"
    then obtain u v where uv: "(u, v) \<in> X" "y = f (u, v)" by auto
    show "y \<in> dom m"
    proof (cases "P u = None")
      case True
      with uv(2) have "y = s u" by (simp add: f_def)
      with partner [OF uv(1) True] show ?thesis by (simp add: domIff)
    next
      case False
      from uv(1) XE have "(u, v) \<in> E" by blast
      with False a have "Q v \<noteq> None" by blast
      with b have "v \<in> dom m" by blast
      with False uv(2) show ?thesis by (simp add: f_def)
    qed
  qed
  have fN: "f (u, v) = s u" if "P u = None" for u v
    using that by (simp add: f_def)
  have fS: "f (u, v) = v" if "P u \<noteq> None" for u v
    using that by (simp add: f_def)
  have mixed: False
    if x: "(u1, v1) \<in> X" "(u2, v2) \<in> X" and p1: "P u1 \<noteq> None" and p2: "P u2 = None"
      and e: "f (u1, v1) = f (u2, v2)" for u1 v1 u2 v2
  proof -
    from x(1) XE have "(u1, v1) \<in> E" by blast
    with p1 a have "Q v1 \<noteq> None" by blast
    with b obtain u0 where u0: "m v1 = Some u0" "P u0 \<noteq> None" by blast
    from e have "v1 = s u2" unfolding fS [OF p1] fN [OF p2] .
    with partner [OF x(2) p2] have "m v1 = Some u2" by (simp only:)
    with u0(1) have "u0 = u2" by (simp only: option.inject)
    with u0(2) p2 show False by simp
  qed
  have key: "u = u' \<and> v = v'"
    if x: "(u, v) \<in> X" "(u', v') \<in> X" and e: "f (u, v) = f (u', v')" for u v u' v'
  proof (cases "P u = None")
    case True
    show ?thesis
    proof (cases "P u' = None")
      case pu': True
      from e have "s u = s u'" unfolding fN [OF True] fN [OF pu'] .
      then have "m (s u) = m (s u')" by (simp only:)
      then have "Some u = Some u'"
        unfolding partner [OF x(1) True] partner [OF x(2) pu'] .
      then have uu: "u = u'" by (simp only: option.inject)
      then have "fst (u, v) = fst (u', v')" by simp
      from inj_onD [OF i1 this x] show ?thesis by simp
    next
      case False
      from mixed [OF x(2) x(1) False True e [symmetric]] show ?thesis ..
    qed
  next
    case False
    show ?thesis
    proof (cases "P u' = None")
      case True
      from mixed [OF x False True e] show ?thesis ..
    next
      case pu': False
      from e have "v = v'" unfolding fS [OF False] fS [OF pu'] .
      then have "snd (u, v) = snd (u', v')" by simp
      from inj_onD [OF i2 this x] show ?thesis by simp
    qed
  qed
  have inj: "inj_on f X"
  proof (rule inj_onI)
    fix p q assume pX: "p \<in> X" and qX: "q \<in> X" and eq: "f p = f q"
    from key [of "fst p" "snd p" "fst q" "snd q"] pX qX eq
    show "p = q" by (simp add: prod_eq_iff)
  qed
  have "card X = card (f ` X)"
    using inj by (simp add: card_image)
  also have "\<dots> \<le> card (dom m)"
    using img fin by (rule card_mono [rotated])
  finally show ?thesis .
qed

lemma matching_card:
  assumes "search_inv E [] [] M" and "finite E"
  shows "card (dom (map_of M)) = length M" and "card (dom (map_of M)) \<le> card (fst ` E)"
proof -
  let ?m = "map_of M"
  have dM: "distinct (map fst M)" and inj: "inj_on ?m (dom ?m)"
    and j2: "\<forall>v u. ?m v = Some u \<longrightarrow> (u, v) \<in> E"
    using assms(1) unfolding search_inv_def by blast+
  have "dom ?m = set (map fst M)"
    by (simp add: dom_map_of_conv_image_fst)
  moreover have "card (set (map fst M)) = length (map fst M)"
    using dM by (rule distinct_card)
  ultimately show "card (dom ?m) = length M"
    by simp
  have "?m ` dom ?m = Some ` ran ?m"
  proof (intro set_eqI iffI)
    fix y assume "y \<in> ?m ` dom ?m"
    then obtain x z where "?m x = Some z" "y = Some z" by auto
    then show "y \<in> Some ` ran ?m" by (auto simp: ran_def)
  next
    fix y assume "y \<in> Some ` ran ?m"
    then obtain x z where xz: "?m x = Some z" "y = Some z" by (auto simp: ran_def)
    then have "x \<in> dom ?m" by auto
    with xz show "y \<in> ?m ` dom ?m" by (intro image_eqI [of _ _ x]) simp_all
  qed
  moreover have "card (Some ` ran ?m) = card (ran ?m)"
    by (rule card_image) simp
  ultimately have "card (?m ` dom ?m) = card (ran ?m)"
    by simp
  moreover have "card (?m ` dom ?m) = card (dom ?m)"
    using inj by (rule card_image)
  moreover have "ran ?m \<subseteq> fst ` E"
  proof
    fix u assume "u \<in> ran ?m"
    then obtain v where "?m v = Some u" by (auto simp: ran_def)
    with j2 have "(u, v) \<in> E" by blast
    then show "u \<in> fst ` E" by (intro image_eqI [of _ _ "(u, v)"]) simp_all
  qed
  then have "card (ran ?m) \<le> card (fst ` E)"
    using assms(2) by (intro card_mono) simp_all
  ultimately show "card (dom ?m) \<le> card (fst ` E)" by simp
qed

lemma augment_loop_unfold:
  "initial_pred g M = Inr pred \<Longrightarrow>
   layering g M pred [] (map fst pred) [] = Some (Inr (pred', preds', unmatched)) \<Longrightarrow>
   augment_loop g M =
     (if unmatched = [] then Some (Inr M)
      else Option.bind (recurse_all unmatched pred' preds' M)
             (\<lambda>(pred'', preds'', M'). augment_loop g M'))"
  by (subst augment_loop.simps) simp

lemma augment_loop_spec:
  "search_inv (edges_of g) [] [] M \<Longrightarrow>
   \<exists>M'. augment_loop g M = Some (Inr M') \<and> search_inv (edges_of g) [] [] M' \<and>
        (\<forall>X. is_matching (edges_of g) X \<longrightarrow> card X \<le> length M')"
proof (induction "card (fst ` edges_of g) - card (dom (map_of M))" arbitrary: M rule: less_induct)
  case less
  let ?E = "edges_of g" and ?m = "map_of M"
  note valid = less.prems
  from initial_layer_inv [OF valid] obtain pred where
    ip: "initial_pred g M = Inr pred"
      "layer_inv g M (\<lambda>_. 0) (\<lambda>_. 0) 0 pred [] (map fst pred) []"
    by blast
  from layering_spec [OF ip(2)] obtain pred' preds' unmatched ru rv k layer where
    ly: "layering g M pred [] (map fst pred) [] = Some (Inr (pred', preds', unmatched))"
      "layer_inv g M ru rv k pred' preds' layer unmatched"
      "unmatched = [] \<longrightarrow> layer = []"
    by blast
  let ?P = "map_of pred'" and ?Q = "map_of preds'"
  have sinv: "search_inv ?E pred' preds' M"
    and lay: "\<And>n. layered ru rv n pred' preds'"
    and k6: "\<forall>u. ?P u \<noteq> None \<longrightarrow>
        u \<in> set layer \<or> (\<forall>v. (u, v) \<in> ?E \<longrightarrow> ?Q v \<noteq> None)"
    and k9: "\<forall>v u. ?Q v \<noteq> None \<longrightarrow> ?m v = Some u \<longrightarrow> ?P u = Some (Via v)"
    and k9': "\<forall>v. ?Q v \<noteq> None \<longrightarrow> ?m v = None \<longrightarrow> v \<in> set unmatched"
    and k7: "\<forall>v\<in>set unmatched. ?Q v \<noteq> None \<and> ?m v = None"
    and k10: "\<forall>u. map_of g u \<noteq> None \<longrightarrow> u \<notin> ran ?m \<longrightarrow> ?P u \<noteq> None"
    using ly(2) unfolding layer_inv_def by blast+
  note unf = augment_loop_unfold [OF ip(1) ly(1)]
  show ?case
  proof (cases "unmatched = []")
    case True
    with ly(3) have layer: "layer = []" by simp
    have res: "augment_loop g M = Some (Inr M)"
      using unf True by simp
    have a: "\<forall>u. ?P u \<noteq> None \<longrightarrow> (\<forall>v. (u, v) \<in> ?E \<longrightarrow> ?Q v \<noteq> None)"
      using k6 unfolding layer by simp
    have b: "\<forall>v. ?Q v \<noteq> None \<longrightarrow> (\<exists>u. ?m v = Some u \<and> ?P u \<noteq> None)"
    proof (intro allI impI)
      fix v assume q: "?Q v \<noteq> None"
      show "\<exists>u. ?m v = Some u \<and> ?P u \<noteq> None"
      proof (cases "?m v")
        case None
        with k9' q True show ?thesis by auto
      next
        case (Some u)
        with k9 q have "?P u = Some (Via v)" by blast
        with Some show ?thesis by simp
      qed
    qed
    have c: "\<forall>u v. (u, v) \<in> ?E \<longrightarrow> u \<notin> ran ?m \<longrightarrow> ?P u \<noteq> None"
    proof (intro allI impI)
      fix u v assume "(u, v) \<in> ?E" "u \<notin> ran ?m"
      moreover from this(1) have "map_of g u \<noteq> None" by (auto dest: edges_ofD)
      ultimately show "?P u \<noteq> None" using k10 by blast
    qed
    have fin: "finite (dom ?m)" by (rule finite_dom_map_of)
    have "\<forall>X. is_matching ?E X \<longrightarrow> card X \<le> length M"
    proof (intro allI impI)
      fix X assume "is_matching ?E X"
      from cover_maximum [OF fin a b c this]
      show "card X \<le> length M"
        unfolding matching_card(1) [OF valid finite_edges_of] .
    qed
    with res valid show ?thesis by blast
  next
    case False
    then obtain v vs where un: "unmatched = v # vs" by (cases unmatched) auto
    have j5: "\<forall>u w. ?P u = Some (Via w) \<longrightarrow> ?m w = Some u"
      using sinv unfolding search_inv_def by blast
    have nvs: "\<forall>x\<in>set (v # vs). \<forall>u'. ?P u' \<noteq> Some (Via x)"
    proof (intro ballI allI notI)
      fix x u' assume x: "x \<in> set (v # vs)" and p: "?P u' = Some (Via x)"
      from p j5 have "?m x = Some u'" by blast
      moreover from x k7 have "?m x = None" unfolding un by blast
      ultimately show False by simp
    qed
    have qv: "?Q v \<noteq> None" and mv: "?m v = None"
      using k7 unfolding un by simp_all
    from augment_phase [OF sinv nvs lay qv mv] obtain pred2 preds2 M2 where
      ph: "recurse_all (v # vs) pred' preds' M = Some (pred2, preds2, M2)"
        "search_inv ?E pred2 preds2 M2" "dom ?m \<subset> dom (map_of M2)"
      by blast
    have valid2: "search_inv ?E [] [] M2"
      by (rule search_inv_mono [OF ph(2)]) simp_all
    have "card (dom ?m) < card (dom (map_of M2))"
      using ph(3) by (intro psubset_card_mono finite_dom_map_of)
    moreover have "card (dom (map_of M2)) \<le> card (fst ` ?E)"
      by (rule matching_card(2) [OF valid2 finite_edges_of])
    ultimately have "card (fst ` ?E) - card (dom (map_of M2))
        < card (fst ` ?E) - card (dom ?m)"
      by simp
    from less.hyps [OF this valid2] obtain M' where
      r: "augment_loop g M2 = Some (Inr M')" "search_inv ?E [] [] M'"
        "\<forall>X. is_matching ?E X \<longrightarrow> card X \<le> length M'"
      by blast
    have "augment_loop g M =
        Option.bind (recurse_all unmatched pred' preds' M)
          (\<lambda>(pred'', preds'', M'). augment_loop g M')"
      using unf False by simp
    then have "augment_loop g M = Some (Inr M')"
      using ph(1) [folded un] r(1) by simp
    with r(2,3) show ?thesis by blast
  qed
qed

lemma bipartite_match_maximum:
  assumes "distinct (map fst g)"
  shows "\<exists>M. bipartite_match g = Some (Inr M) \<and> search_inv (edges_of g) [] [] M \<and>
        (\<forall>X. is_matching (edges_of g) X \<longrightarrow> card X \<le> length M)"
  unfolding bipartite_match_def
  by (rule augment_loop_spec [OF greedy_matching_valid [OF assms]])

subsection \<open>\<open>match_events\<close>: maximum cardinality\<close>

lemma hits_set: "set (hits ref est window) = compat ref est window"
  by (auto simp: hits_def compat_def)

lemma add_hit_edges: "edges_of (add_hit (i, j) G) = insert (i, j) (edges_of G)"
proof (cases "map_of G i")
  case None
  then show ?thesis
    by (auto simp: add_hit_def edges_of_def update_conv' split: if_splits)
next
  case (Some js)
  then show ?thesis
    by (auto simp: add_hit_def edges_of_def update_conv' split: if_splits)
qed

lemma add_hit_distinct: "distinct (map fst G) \<Longrightarrow> distinct (map fst (add_hit h G))"
  by (cases h) (auto simp: add_hit_def distinct_update split: option.splits)

lemma fold_add_hit:
  "distinct (map fst G) \<Longrightarrow>
   distinct (map fst (fold add_hit hs G)) \<and>
   edges_of (fold add_hit hs G) = set hs \<union> edges_of G"
proof (induction hs arbitrary: G)
  case Nil
  then show ?case by simp
next
  case (Cons h hs)
  obtain i j where h: "h = (i, j)" by (cases h)
  from Cons.IH [OF add_hit_distinct [OF Cons.prems, of h]]
  show ?case unfolding h by (simp add: add_hit_edges)
qed

lemma matching_pairs:
  assumes "search_inv E [] [] M"
  shows "is_matching E ((\<lambda>(v, u). (u, v)) ` set M)"
proof -
  let ?m = "map_of M"
  have dM: "distinct (map fst M)" and inj: "inj_on ?m (dom ?m)"
    and j2: "\<forall>v u. ?m v = Some u \<longrightarrow> (u, v) \<in> E"
    using assms unfolding search_inv_def by blast+
  have mem: "(u, v) \<in> (\<lambda>(v, u). (u, v)) ` set M \<longleftrightarrow> ?m v = Some u" for u v
  proof -
    have "(u, v) \<in> (\<lambda>(v, u). (u, v)) ` set M \<longleftrightarrow> (v, u) \<in> set M"
      by force
    then show ?thesis using dM by simp
  qed
  have sub: "(\<lambda>(v, u). (u, v)) ` set M \<subseteq> E"
  proof
    fix e assume e: "e \<in> (\<lambda>(v, u). (u, v)) ` set M"
    obtain u v where uv: "e = (u, v)" by (cases e)
    from e mem [of u v] j2 show "e \<in> E" unfolding uv by blast
  qed
  have i1: "inj_on fst ((\<lambda>(v, u). (u, v)) ` set M)"
  proof (rule inj_onI)
    fix p q assume p: "p \<in> (\<lambda>(v, u). (u, v)) ` set M"
      and q: "q \<in> (\<lambda>(v, u). (u, v)) ` set M" and eq: "fst p = fst q"
    obtain u v where pe: "p = (u, v)" by (cases p)
    obtain u' v' where qe: "q = (u', v')" by (cases q)
    from p q have a: "?m v = Some u" "?m v' = Some u'"
      unfolding pe qe mem by simp_all
    from eq have uu: "u = u'" unfolding pe qe by simp
    with a have "?m v = ?m v'" by simp
    moreover from a have "v \<in> dom ?m" "v' \<in> dom ?m" by auto
    ultimately have "v = v'" by (rule inj_onD [OF inj])
    with uu show "p = q" unfolding pe qe by simp
  qed
  have i2: "inj_on snd ((\<lambda>(v, u). (u, v)) ` set M)"
  proof (rule inj_onI)
    fix p q assume p: "p \<in> (\<lambda>(v, u). (u, v)) ` set M"
      and q: "q \<in> (\<lambda>(v, u). (u, v)) ` set M" and eq: "snd p = snd q"
    obtain u v where pe: "p = (u, v)" by (cases p)
    obtain u' v' where qe: "q = (u', v')" by (cases q)
    from p q have a: "?m v = Some u" "?m v' = Some u'"
      unfolding pe qe mem by simp_all
    from eq have vv: "v = v'" unfolding pe qe by simp
    with a have "u = u'" by simp
    with vv show "p = q" unfolding pe qe by simp
  qed
  from sub i1 i2 show ?thesis unfolding is_matching_def by blast
qed

text \<open>
  C1. \<open>match_events\<close> returns, for all event lists and every window, and the pairs it
  returns have maximum cardinality for the compatibility graph (whose edges are exactly
  the pairs \<open>(i, j)\<close> with \<open>|ref[i] - est[j]| \<le> window\<close>): they form, with each pair read as
  \<open>(est_index, ref_index)\<close>, a matching of that graph, and no matching of the graph has
  more pairs.
\<close>

theorem match_events_maximum:
  "\<exists>matching.
     match_events ref est window = Some (Inr matching) \<and>
     is_matching (compat ref est window) ((\<lambda>(est_i, ref_i). (ref_i, est_i)) ` set matching) \<and>
     (\<forall>X. is_matching (compat ref est window) X \<longrightarrow> card X \<le> card (set matching))"
proof -
  define G where "G = fold add_hit (hits ref est window) []"
  have "distinct (map fst ([] :: graph))" by simp
  moreover have e0: "edges_of [] = {}" by (simp add: edges_of_def)
  ultimately have dG: "distinct (map fst G)" and eG: "edges_of G = compat ref est window"
    using fold_add_hit [of "[]" "hits ref est window"] unfolding G_def
    by (simp_all add: hits_set)
  from bipartite_match_maximum [OF dG] obtain M where
    M: "bipartite_match G = Some (Inr M)" "search_inv (edges_of G) [] [] M"
      "\<forall>X. is_matching (edges_of G) X \<longrightarrow> card X \<le> length M"
    by blast
  have res: "match_events ref est window = Some (Inr (sort M))"
    using M(1) by (simp add: match_events_def G_def [symmetric])
  have "distinct M"
    using M(2) by (auto simp: search_inv_def distinct_map)
  then have cardM: "card (set (sort M)) = length M"
    by (simp add: distinct_card)
  have "is_matching (compat ref est window) ((\<lambda>(v, u). (u, v)) ` set (sort M))"
    using matching_pairs [OF M(2)] unfolding eG by simp
  moreover have "\<forall>X. is_matching (compat ref est window) X \<longrightarrow> card X \<le> card (set (sort M))"
    using M(3) unfolding eG cardM .
  ultimately show ?thesis using res by blast
qed

theorem match_events_maximum_witness:
  "is_matching (compat [2, 1 :: int] [2, 3] 1) {(0, 1), (1, 0)} \<and>
   match_events [2, 1 :: int] [2, 3] 1 = Some (Inr [(0, 1), (1, 0)]) \<and>
   card {(0 :: nat, 1 :: nat), (1, 0)} \<le> card (set [(0 :: nat, 1 :: nat), (1, 0)])"
proof -
  have h: "is_matching (compat [2, 1 :: int] [2, 3] 1) {(0, 1), (1, 0)}"
    by (simp add: is_matching_def compat_def)
  have e: "match_events [2, 1 :: int] [2, 3] 1 = Some (Inr [(0, 1), (1, 0)])"
    by code_simp
  from match_events_maximum [of "[2, 1 :: int]" "[2, 3]" 1] obtain matching where
    m: "match_events [2, 1 :: int] [2, 3] 1 = Some (Inr matching)"
      "\<forall>X. is_matching (compat [2, 1 :: int] [2, 3] 1) X \<longrightarrow> card X \<le> card (set matching)"
    by blast
  from m(1) e have "matching = [(0, 1), (1, 0)]" by simp
  with m(2) h have "card {(0 :: nat, 1 :: nat), (1, 0)} \<le> card (set [(0 :: nat, 1 :: nat), (1, 0)])"
    by blast
  with h e show ?thesis by blast
qed

end
